theory Spec2Isabelle
  imports Complex_Main "HOL-Library.Multiset" "HOL-Library.Char_ord" "HOL-Library.List_Lexorder"
begin

section \<open>Folded-stack flame graphs: \<^verbatim>\<open>flamegraph.py\<close> and \<^verbatim>\<open>flamediff.py\<close>\<close>

text \<open>
  Python strings are modelled as \<^typ>\<open>string\<close>, one \<^typ>\<open>char\<close> per code point, which covers
  the code points below 256; the whitespace and digit classes below are the ASCII ones.
  Python's unbounded integers are \<^typ>\<open>int\<close>. Python's floats are modelled by exact
  \<^typ>\<open>real\<close> arithmetic (no rounding).
\<close>

subsection \<open>String primitives of the Python runtime\<close>

text \<open>\<^verbatim>\<open>str.isspace\<close> on ASCII: TAB, LF, VT, FF, CR, FS, GS, RS, US and the blank.\<close>

definition is_space :: "char \<Rightarrow> bool" where
  "is_space c \<longleftrightarrow> (of_char c :: nat) \<in> {9, 10, 11, 12, 13, 28, 29, 30, 31, 32}"

text \<open>\<^verbatim>\<open>s.strip()\<close>: drop the whitespace at both ends.\<close>

definition strip :: "string \<Rightarrow> string" where
  "strip s = rev (dropWhile is_space (rev (dropWhile is_space s)))"

text \<open>\<^verbatim>\<open>s.startswith('#')\<close>.\<close>

definition startswith_hash :: "string \<Rightarrow> bool" where
  "startswith_hash s = (case s of [] \<Rightarrow> False | c # _ \<Rightarrow> c = CHR ''#'')"

text \<open>\<^verbatim>\<open>s.rfind(c)\<close>: the index of the last occurrence of \<open>c\<close>, or \<open>-1\<close>.\<close>

fun rfind :: "char \<Rightarrow> string \<Rightarrow> int" where
  "rfind c [] = - 1"
| "rfind c (x # xs) =
     (let r = rfind c xs in if 0 \<le> r then r + 1 else if x = c then 0 else - 1)"

text \<open>
  \<^verbatim>\<open>s.split(sep)\<close> with a one-character separator: cut at every occurrence; the result is
  never empty, and the empty string gives one empty field.
\<close>

function split :: "char \<Rightarrow> string \<Rightarrow> string list" where
  "split sep s =
     (case dropWhile (\<lambda>x. x \<noteq> sep) s of
        [] \<Rightarrow> [s]
      | _ # rest \<Rightarrow> takeWhile (\<lambda>x. x \<noteq> sep) s # split sep rest)"
  by pat_completeness auto
termination
proof (relation "measure (\<lambda>(sep, s). length s)")
  show "wf (measure (\<lambda>(sep, s). length s))"
    by simp
next
  fix sep :: char and s :: string and x :: char and rest :: string
  assume "dropWhile (\<lambda>x. x \<noteq> sep) s = x # rest"
  then have "length (x # rest) \<le> length s"
    by (metis length_dropWhile_le)
  then show "((sep, rest), (sep, s)) \<in> measure (\<lambda>(sep, s). length s)"
    by simp
qed

declare split.simps [simp del]

text \<open>
  \<^verbatim>\<open>int(s)\<close> on a string, base 10: surrounding whitespace is dropped, one sign may come
  first, then decimal digits in which single underscores may separate digits. Anything
  else raises \<^verbatim>\<open>ValueError\<close>.
\<close>

datatype py_error = ValueError

definition is_digit :: "char \<Rightarrow> bool" where
  "is_digit c \<longleftrightarrow> 48 \<le> (of_char c :: nat) \<and> (of_char c :: nat) \<le> 57"

definition digit_val :: "char \<Rightarrow> int" where
  "digit_val c = int (of_char c) - 48"

fun digits_ok :: "string \<Rightarrow> bool" where
  "digits_ok [] = False"
| "digits_ok [c] = is_digit c"
| "digits_ok (c # d # r) =
     (is_digit c \<and> (if d = CHR ''_'' then digits_ok r else digits_ok (d # r)))"

definition digits_value :: "string \<Rightarrow> int" where
  "digits_value ds = foldl (\<lambda>acc c. 10 * acc + digit_val c) 0 (filter (\<lambda>c. c \<noteq> CHR ''_'') ds)"

definition py_int :: "string \<Rightarrow> py_error + int" where
  "py_int s =
     (let t = strip s;
          neg = (t \<noteq> [] \<and> hd t = CHR ''-'');
          ds = (if t \<noteq> [] \<and> (hd t = CHR ''-'' \<or> hd t = CHR ''+'') then tl t else t)
      in if digits_ok ds then Inr ((if neg then - 1 else 1) * digits_value ds)
         else Inl ValueError)"

subsection \<open>Reading one folded-stack line\<close>

text \<open>
  The body of the loop of \<^verbatim>\<open>parse_folded\<close> up to the computation of \<^verbatim>\<open>count\<close>, which is the
  same statement sequence in \<^verbatim>\<open>flamegraph.py\<close> (lines 61 to 76) and \<^verbatim>\<open>flamediff.py\<close>
  (lines 70 to 82). \<open>None\<close> is \<^verbatim>\<open>continue\<close>; \<open>Some (stack_str, count)\<close> is what the rest of
  the loop body works with.
\<close>

definition parse_line :: "string \<Rightarrow> (string \<times> int) option" where
  "parse_line raw =
     (let line = strip raw in
      if line = [] \<or> startswith_hash line then None
      else
        let idx = rfind CHR '' '' line in
        if idx < 0 then None
        else
          let stack_str = take (nat idx) line;
              count0 = (case py_int (drop (nat (idx + 1)) line) of
                          Inl ValueError \<Rightarrow> 1
                        | Inr n \<Rightarrow> n);
              count1 = (if count0 \<le> 0 then 1 else count0)
          in Some (stack_str, count1))"

subsection \<open>The frame tree of \<^verbatim>\<open>flamegraph.py\<close>\<close>

text \<open>
  Class \<^verbatim>\<open>Frame\<close>. The dictionary \<^verbatim>\<open>child_map\<close> holds, under each child's name, the very
  object that \<^verbatim>\<open>children\<close> holds; it is modelled by looking the name up in \<open>children\<close>.
\<close>

datatype Frame = Frame (name: string) (count: int) (self_count: int) (children: "Frame list")

text \<open>
  \<^verbatim>\<open>node = node.add_child(func)\<close> followed by the updates \<open>g\<close> that the loop then applies to
  that child: the child registered under the name is updated in place, and a name not
  yet registered appends a fresh \<^verbatim>\<open>Frame(name)\<close>.
\<close>

fun add_child :: "string \<Rightarrow> (Frame \<Rightarrow> Frame) \<Rightarrow> Frame list \<Rightarrow> Frame list" where
  "add_child f g [] = [g (Frame f 0 0 [])]"
| "add_child f g (x # xs) = (if name x = f then g x # xs else x # add_child f g xs)"

text \<open>
  The walk of one stack from the current node: \<^verbatim>\<open>node.count += count\<close>, then one step down
  per function name, and \<^verbatim>\<open>node.self_count += count\<close> at the last node reached.
\<close>

fun add_stack :: "int \<Rightarrow> string list \<Rightarrow> Frame \<Rightarrow> Frame" where
  "add_stack c [] (Frame n k s ch) = Frame n (k + c) (s + c) ch"
| "add_stack c (f # fs) (Frame n k s ch) =
     Frame n (k + c) s (add_child f (\<lambda>child. add_stack c fs child) ch)"

definition add_line :: "string \<Rightarrow> Frame \<times> int \<Rightarrow> Frame \<times> int" where
  "add_line raw st =
     (case parse_line raw of
        None \<Rightarrow> st
      | Some (stack_str, c) \<Rightarrow>
          (add_stack c (split CHR '';'' stack_str) (fst st), snd st + c))"

definition parse_folded :: "string list \<Rightarrow> Frame \<times> int" where
  "parse_folded lines = fold add_line lines (Frame ''root'' 0 0 [], 0)"

fun sort_children :: "Frame \<Rightarrow> Frame" where
  "sort_children (Frame n k s ch) = Frame n k s (map sort_children (sort_key name ch))"

fun max_depth :: "Frame \<Rightarrow> nat \<Rightarrow> nat" where
  "max_depth (Frame n k s ch) depth =
     fold (\<lambda>c m. max m (max_depth c (depth + 1))) ch depth"

text \<open>All nodes of a tree, the root first.\<close>

fun nodes :: "Frame \<Rightarrow> Frame list" where
  "nodes (Frame n k s ch) = Frame n k s ch # concat (map nodes ch)"

text \<open>The inclusive count of a node is its self count plus its children's inclusive counts.\<close>

definition balanced :: "Frame \<Rightarrow> bool" where
  "balanced t \<longleftrightarrow> count t = self_count t + sum_list (map count (children t))"

definition all_balanced :: "Frame \<Rightarrow> bool" where
  "all_balanced t \<longleftrightarrow> (\<forall>node \<in> set (nodes t). balanced node)"

subsection \<open>Colours, escaping and rendering in \<^verbatim>\<open>flamegraph.py\<close>\<close>

text \<open>\<^verbatim>\<open>int(x)\<close> on a float: truncation towards zero.\<close>

definition py_trunc :: "real \<Rightarrow> int" where
  "py_trunc v = (if 0 \<le> v then \<lfloor>v\<rfloor> else \<lceil>v\<rceil>)"

text \<open>
  \<^verbatim>\<open>name_to_color\<close>. The library call \<^verbatim>\<open>int(hashlib.md5(name.encode()).hexdigest()[:8], 16)\<close>
  is the parameter \<open>md5_hex8\<close>.
\<close>

definition name_to_color :: "(string \<Rightarrow> nat) \<Rightarrow> string \<Rightarrow> int \<times> int \<times> int" where
  "name_to_color md5_hex8 nm =
     (let h = md5_hex8 nm;
          hue = h mod 60;
          sat = 160 + drop_bit 8 h mod 55;
          val = 200 + drop_bit 16 h mod 56;
          hf = real hue / 60;
          s = real sat / 255;
          v = real val / 255;
          c = v * s;
          x = c * (1 - \<bar>if hf \<le> 1 then hf else hf - 1\<bar>);
          m = v - c;
          rf = (if hf < 1 then c else x);
          gf = (if hf < 1 then x else c);
          bf = 0
      in (py_trunc ((rf + m) * 255), py_trunc ((gf + m) * 255), py_trunc ((bf + m) * 55 + 30)))"

text \<open>\<^verbatim>\<open>s.replace(old, new)\<close> for a one-character \<open>old\<close>.\<close>

definition replace :: "char \<Rightarrow> string \<Rightarrow> string \<Rightarrow> string" where
  "replace old new s = concat (map (\<lambda>x. if x = old then new else [x]) s)"

definition xml_escape :: "string \<Rightarrow> string" where
  "xml_escape s =
     replace CHR 0x22 ''&quot;''
       (replace CHR ''>'' ''&gt;''
         (replace CHR ''<'' ''&lt;''
           (replace CHR ''&'' ''&amp;'' s)))"

definition FRAME_HEIGHT :: int where "FRAME_HEIGHT = 16"
definition MIN_WIDTH_PX :: real where "MIN_WIDTH_PX = 1 / 10"
definition CHAR_WIDTH :: real where "CHAR_WIDTH = 13 / 2"
definition MARGIN :: int where "MARGIN = 10"

text \<open>
  One \<^verbatim>\<open><g>\<close> group written by \<^verbatim>\<open>render_frame\<close>: the number in its id, the name at the head
  of its \<^verbatim>\<open><title>\<close>, the geometry and fill of its \<^verbatim>\<open><rect>\<close>, the \<^verbatim>\<open>data-name\<close> attribute, and
  the content of its \<^verbatim>\<open><text>\<close> label when one is written. The formatting of numbers into
  decimal text is not modelled.
\<close>

record group =
  g_id :: nat
  g_title :: string
  g_x :: real
  g_y :: int
  g_width :: real
  g_fill :: "int \<times> int \<times> int"
  g_data_name :: string
  g_label :: "string option"

text \<open>The three-way choice of the text label (lines 166 to 177).\<close>

definition text_label :: "string \<Rightarrow> real \<Rightarrow> string option" where
  "text_label nm x_width =
     (let text_width = real (length nm) * CHAR_WIDTH in
      if x_width > text_width + 6 then Some (xml_escape nm)
      else if x_width > 20 then
        (let max_chars = py_trunc ((x_width - 6) / CHAR_WIDTH) in
         if max_chars > 0 then Some (xml_escape (take (nat max_chars) nm) @ ''..'')
         else None)
      else None)"

text \<open>The width that the loop over the children gives to one child (line 184).\<close>

definition child_w :: "real \<Rightarrow> int \<Rightarrow> Frame \<Rightarrow> real" where
  "child_w x_width frame_count child =
     (if frame_count > 0 then x_width * (real_of_int (count child) / real_of_int frame_count)
      else 0)"

text \<open>
  \<^verbatim>\<open>render_frame\<close>, returning what it writes and the new \<^verbatim>\<open>frame_id_counter\<close>;
  \<open>render_children\<close> is its loop over \<^verbatim>\<open>frame.children\<close>, carrying \<^verbatim>\<open>child_x\<close>.
\<close>

fun render_frame ::
    "(string \<Rightarrow> nat) \<Rightarrow> Frame \<Rightarrow> nat \<Rightarrow> real \<Rightarrow> real \<Rightarrow> int \<Rightarrow> int \<Rightarrow> nat \<Rightarrow> group list \<times> nat"
  and render_children ::
    "(string \<Rightarrow> nat) \<Rightarrow> Frame list \<Rightarrow> int \<Rightarrow> nat \<Rightarrow> real \<Rightarrow> real \<Rightarrow> int \<Rightarrow> int \<Rightarrow> nat
       \<Rightarrow> group list \<times> nat"
where
  "render_frame md5_hex8 (Frame nm k s ch) depth x_left x_width svg_height tot counter =
     (if x_width < MIN_WIDTH_PX then ([], counter)
      else
        let y = svg_height - 30 - (int depth + 1) * FRAME_HEIGHT;
            rgb = (if depth = 0 then (200, 200, 200) else name_to_color md5_hex8 nm);
            escaped_name = xml_escape nm;
            g = \<lparr>g_id = counter, g_title = escaped_name, g_x = x_left, g_y = y,
                 g_width = x_width, g_fill = rgb, g_data_name = escaped_name,
                 g_label = text_label nm x_width\<rparr>;
            rest = render_children md5_hex8 ch k (depth + 1) x_left x_width svg_height tot
                     (counter + 1)
        in (g # fst rest, snd rest))"
| "render_children md5_hex8 [] frame_count depth child_x x_width svg_height tot counter =
     ([], counter)"
| "render_children md5_hex8 (child # cs) frame_count depth child_x x_width svg_height tot counter =
     (let w = child_w x_width frame_count child;
          first = render_frame md5_hex8 child depth child_x w svg_height tot counter;
          rest = render_children md5_hex8 cs frame_count depth (child_x + w) x_width svg_height
                   tot (snd first)
      in (fst first @ fst rest, snd rest))"


text \<open>The document: its size, escaped title, sample total and frame groups.\<close>

record svg =
  svg_width :: int
  svg_height :: int
  svg_title :: string
  svg_total :: int
  svg_groups :: "group list"

definition render_svg :: "(string \<Rightarrow> nat) \<Rightarrow> Frame \<Rightarrow> int \<Rightarrow> string \<Rightarrow> int \<Rightarrow> svg" where
  "render_svg md5_hex8 root_frame tot title width =
     (let sorted = sort_children root_frame;
          depth = max_depth sorted 0;
          height = (int depth + 2) * FRAME_HEIGHT + 80
      in \<lparr>svg_width = width, svg_height = height, svg_title = xml_escape title,
           svg_total = tot,
           svg_groups = fst (render_frame md5_hex8 sorted 0 (real_of_int MARGIN)
                               (real_of_int (width - 2 * MARGIN)) height tot 0)\<rparr>)"

text \<open>
  How a run ends: \<^verbatim>\<open>sys.exit(status)\<close> after a message on the error stream, or the document
  written. \<^verbatim>\<open>parser.error(msg)\<close> of the standard \<^verbatim>\<open>argparse\<close> module prints the usage and the
  message on the error stream and exits with status 2. An uncaught exception (a file
  that cannot be opened) is \<open>Raised\<close>.
\<close>

datatype outcome = Exit nat string | Raised string | Written svg

definition parser_error :: "string \<Rightarrow> outcome" where
  "parser_error msg = Exit 2 msg"

text \<open>\<^verbatim>\<open>main\<close> of \<^verbatim>\<open>flamegraph.py\<close> from the lines read (lines 354 to 373).\<close>

definition main :: "(string \<Rightarrow> nat) \<Rightarrow> string list \<Rightarrow> string \<Rightarrow> int \<Rightarrow> outcome" where
  "main md5_hex8 lines title width =
     (if lines = [] then Exit 1 ''flamegraph.py: no input''
      else
        let (root_frame, tot) = parse_folded lines in
        if tot = 0 then Exit 1 ''flamegraph.py: no samples found in input''
        else Written (render_svg md5_hex8 root_frame tot title width))"

subsection \<open>The aggregating parser and the differential tree of \<^verbatim>\<open>flamediff.py\<close>\<close>

text \<open>
  The \<^verbatim>\<open>defaultdict(int)\<close> of \<^verbatim>\<open>parse_folded\<close>: its items in insertion order.
  \<open>dict_add\<close> is \<^verbatim>\<open>stacks[k] += c\<close>, \<open>dict_get\<close> is \<^verbatim>\<open>stacks.get(k, d)\<close>.
\<close>

type_synonym stacks = "(string \<times> int) list"

fun dict_add :: "string \<Rightarrow> int \<Rightarrow> stacks \<Rightarrow> stacks" where
  "dict_add k c [] = [(k, 0 + c)]"
| "dict_add k c ((k', v) # r) = (if k' = k then (k', v + c) # r else (k', v) # dict_add k c r)"

definition dict_get :: "stacks \<Rightarrow> string \<Rightarrow> int \<Rightarrow> int" where
  "dict_get d k dflt = (case map_of d k of None \<Rightarrow> dflt | Some v \<Rightarrow> v)"

definition add_line_d :: "string \<Rightarrow> stacks \<times> int \<Rightarrow> stacks \<times> int" where
  "add_line_d raw st =
     (case parse_line raw of
        None \<Rightarrow> st
      | Some (stack_str, c) \<Rightarrow> (dict_add stack_str c (fst st), snd st + c))"

definition parse_folded_d :: "string list \<Rightarrow> stacks \<times> int" where
  "parse_folded_d lines = fold add_line_d lines ([], 0)"

text \<open>Class \<^verbatim>\<open>DiffFrame\<close>, with its properties \<^verbatim>\<open>count\<close> and \<^verbatim>\<open>delta\<close>.\<close>

datatype DiffFrame =
  DiffFrame (name_d: string) (count_a: int) (count_b: int) (self_a: int) (self_b: int)
    (children_d: "DiffFrame list")

definition count_d :: "DiffFrame \<Rightarrow> int" where
  "count_d t = max (count_a t) (count_b t)"

definition delta :: "DiffFrame \<Rightarrow> int" where
  "delta t = count_b t - count_a t"

fun add_child_d :: "string \<Rightarrow> (DiffFrame \<Rightarrow> DiffFrame) \<Rightarrow> DiffFrame list \<Rightarrow> DiffFrame list" where
  "add_child_d f g [] = [g (DiffFrame f 0 0 0 0 [])]"
| "add_child_d f g (x # xs) = (if name_d x = f then g x # xs else x # add_child_d f g xs)"

fun add_stack_d :: "int \<Rightarrow> int \<Rightarrow> string list \<Rightarrow> DiffFrame \<Rightarrow> DiffFrame" where
  "add_stack_d a b [] (DiffFrame n ka kb sa sb ch) = DiffFrame n (ka + a) (kb + b) (sa + a) (sb + b) ch"
| "add_stack_d a b (f # fs) (DiffFrame n ka kb sa sb ch) =
     DiffFrame n (ka + a) (kb + b) sa sb (add_child_d f (\<lambda>child. add_stack_d a b fs child) ch)"

text \<open>
  \<^verbatim>\<open>build_diff_tree\<close>. Python iterates the set \<^verbatim>\<open>all_stacks\<close> in an order that the language
  leaves open; the order taken is the last parameter, and \<open>iteration_of\<close> says that it
  enumerates \<^verbatim>\<open>set(stacks_a.keys()) | set(stacks_b.keys())\<close>, each key once.
\<close>

definition iteration_of :: "stacks \<Rightarrow> stacks \<Rightarrow> string list \<Rightarrow> bool" where
  "iteration_of stacks_a stacks_b all_stacks \<longleftrightarrow>
     distinct all_stacks \<and> set all_stacks = fst ` set stacks_a \<union> fst ` set stacks_b"

definition build_diff_tree :: "stacks \<Rightarrow> int \<Rightarrow> stacks \<Rightarrow> int \<Rightarrow> string list \<Rightarrow> DiffFrame" where
  "build_diff_tree stacks_a total_a stacks_b total_b all_stacks =
     fold (\<lambda>stack_str root_frame.
             add_stack_d (dict_get stacks_a stack_str 0) (dict_get stacks_b stack_str 0)
               (split CHR '';'' stack_str) root_frame)
       all_stacks (DiffFrame ''root'' 0 0 0 0 [])"

fun sort_children_d :: "DiffFrame \<Rightarrow> DiffFrame" where
  "sort_children_d (DiffFrame n ka kb sa sb ch) =
     DiffFrame n ka kb sa sb (map sort_children_d (sort_key name_d ch))"

text \<open>\<^verbatim>\<open>delta_color\<close>.\<close>

definition delta_color :: "int \<Rightarrow> int \<Rightarrow> int \<Rightarrow> int \<Rightarrow> int \<times> int \<times> int" where
  "delta_color cnt_a cnt_b total_a total_b =
     (if total_a = 0 \<and> total_b = 0 then (200, 200, 200)
      else
        let rate_a = (if total_a > 0 then real_of_int cnt_a / real_of_int total_a else 0);
            rate_b = (if total_b > 0 then real_of_int cnt_b / real_of_int total_b else 0);
            diff = rate_b - rate_a
        in if \<bar>diff\<bar> < 1 / 1000 then (200, 200, 200)
           else
             let intensity = min (\<bar>diff\<bar> / (3 / 10)) 1;
                 r = (if diff > 0 then 200 + py_trunc (55 * intensity)
                      else 200 - py_trunc (140 * intensity));
                 g = (if diff > 0 then 200 - py_trunc (140 * intensity)
                      else 200 - py_trunc (80 * intensity));
                 b = (if diff > 0 then 200 - py_trunc (140 * intensity)
                      else 200 + py_trunc (55 * intensity))
             in (max 0 (min 255 r), max 0 (min 255 g), max 0 (min 255 b)))"

text \<open>
  \<^verbatim>\<open>main\<close> of \<^verbatim>\<open>flamediff.py\<close> up to the checks of the totals (lines 343 to 365). The parsed
  arguments are a record; \<open>read_lines\<close> is \<^verbatim>\<open>open(path).readlines()\<close>, \<open>None\<close> when the file
  cannot be opened. \<open>py_or\<close> is \<^verbatim>\<open>x or y\<close> and \<open>falsy\<close> is \<^verbatim>\<open>not x\<close> on an optional string.
  What comes after the checks is \<open>Inr\<close> with the two parsed profiles.
\<close>

record args =
  files :: "string list"
  before :: "string option"
  after :: "string option"

definition falsy :: "string option \<Rightarrow> bool" where
  "falsy v \<longleftrightarrow> v = None \<or> v = Some []"

definition py_or :: "string option \<Rightarrow> string \<Rightarrow> string option" where
  "py_or v w = (if falsy v then Some w else v)"

definition resolve_files :: "args \<Rightarrow> string option \<times> string option" where
  "resolve_files a =
     (if files a \<noteq> [] then
        (if length (files a) \<ge> 2 then (py_or (before a) (files a ! 0), py_or (after a) (files a ! 1))
         else if length (files a) = 1 then (py_or (before a) (files a ! 0), after a)
         else (before a, after a))
      else (before a, after a))"

definition main_d ::
    "args \<Rightarrow> (string \<Rightarrow> string list option) \<Rightarrow> outcome + ((stacks \<times> int) \<times> (stacks \<times> int))" where
  "main_d a read_lines =
     (let (before_file, after_file) = resolve_files a in
      if falsy before_file \<or> falsy after_file
      then Inl (parser_error ''Need two input files: before.folded after.folded'')
      else
        case read_lines (the before_file) of
          None \<Rightarrow> Inl (Raised ''OSError'')
        | Some lines_a \<Rightarrow>
            (case read_lines (the after_file) of
               None \<Rightarrow> Inl (Raised ''OSError'')
             | Some lines_b \<Rightarrow>
                 let (stacks_a, total_a) = parse_folded_d lines_a;
                     (stacks_b, total_b) = parse_folded_d lines_b
                 in if total_a = 0
                    then Inl (Exit 1 (''flamediff.py: no samples in '' @ the before_file))
                    else if total_b = 0
                    then Inl (Exit 1 (''flamediff.py: no samples in '' @ the after_file))
                    else Inr ((stacks_a, total_a), (stacks_b, total_b))))"

text \<open>What one input line contributes to the aggregated count of the call path \<open>p\<close>.\<close>

definition weight_of :: "string \<Rightarrow> string \<Rightarrow> int" where
  "weight_of p raw = (case parse_line raw of None \<Rightarrow> 0 | Some (q, c) \<Rightarrow> if q = p then c else 0)"

text \<open>Whether an input line is read as a sample of the call path \<open>p\<close>.\<close>

definition carries :: "string \<Rightarrow> string \<Rightarrow> bool" where
  "carries p raw = (case parse_line raw of None \<Rightarrow> False | Some (q, c) \<Rightarrow> q = p)"


text \<open>
  The replacement text of one character: \<open>&\<close> becomes \<open>&amp;\<close>, \<open><\<close> becomes \<open>&lt;\<close>, \<open>>\<close> becomes
  \<open>&gt;\<close>, the double quote becomes \<open>&quot;\<close>, and any other character stays.
\<close>

definition entity :: "char \<Rightarrow> string" where
  "entity c =
     (if c = CHR ''&'' then ''&amp;''
      else if c = CHR ''<'' then ''&lt;''
      else if c = CHR ''>'' then ''&gt;''
      else if c = CHR 0x22 then ''&quot;''
      else [c])"

text \<open>What a written group may carry for a frame named \<open>nm\<close>: only escaped text.\<close>

definition escaped_for :: "string \<Rightarrow> group \<Rightarrow> bool" where
  "escaped_for nm g \<longleftrightarrow>
     g_title g = xml_escape nm \<and> g_data_name g = xml_escape nm
     \<and> (g_label g = None \<or> g_label g = Some (xml_escape nm)
        \<or> (\<exists>k. g_label g = Some (xml_escape (take k nm) @ ''..'')))"

text \<open>Rendering in \<^verbatim>\<open>flamediff.py\<close>: \<^verbatim>\<open>max_depth\<close>, \<^verbatim>\<open>render_diff_frame\<close> and \<^verbatim>\<open>render_diff_svg\<close>.\<close>

fun max_depth_d :: "DiffFrame \<Rightarrow> nat \<Rightarrow> nat" where
  "max_depth_d (DiffFrame n ka kb sa sb ch) depth =
     fold (\<lambda>c m. max m (max_depth_d c (depth + 1))) ch depth"

fun nodes_d :: "DiffFrame \<Rightarrow> DiffFrame list" where
  "nodes_d (DiffFrame n ka kb sa sb ch) = DiffFrame n ka kb sa sb ch # concat (map nodes_d ch)"

text \<open>The width of one child (line 228); \<open>parent_count\<close> is never 0 there.\<close>

definition child_w_d :: "real \<Rightarrow> int \<Rightarrow> DiffFrame \<Rightarrow> real" where
  "child_w_d x_width parent_count child =
     x_width * (real_of_int (count_d child) / real_of_int parent_count)"

fun render_diff_frame ::
    "DiffFrame \<Rightarrow> nat \<Rightarrow> real \<Rightarrow> real \<Rightarrow> int \<Rightarrow> int \<Rightarrow> int \<Rightarrow> int \<Rightarrow> nat \<Rightarrow> group list \<times> nat"
  and render_diff_children ::
    "DiffFrame list \<Rightarrow> int \<Rightarrow> nat \<Rightarrow> real \<Rightarrow> real \<Rightarrow> int \<Rightarrow> int \<Rightarrow> int \<Rightarrow> int \<Rightarrow> nat
       \<Rightarrow> group list \<times> nat"
where
  "render_diff_frame (DiffFrame nm ka kb sa sb ch) depth x_left x_width height total_a total_b
     max_count fid_counter =
     (if x_width < MIN_WIDTH_PX then ([], fid_counter)
      else
        let y = height - 30 - (int depth + 1) * FRAME_HEIGHT;
            rgb = (if depth = 0 then (200, 200, 200) else delta_color ka kb total_a total_b);
            escaped_name = xml_escape nm;
            g = \<lparr>g_id = fid_counter, g_title = escaped_name, g_x = x_left, g_y = y,
                 g_width = x_width, g_fill = rgb, g_data_name = escaped_name,
                 g_label = text_label nm x_width\<rparr>;
            frame_count = count_d (DiffFrame nm ka kb sa sb ch);
            parent_count = (if frame_count > 0 then frame_count else 1);
            rest = render_diff_children ch parent_count (depth + 1) x_left x_width height
                     total_a total_b max_count (fid_counter + 1)
        in (g # fst rest, snd rest))"
| "render_diff_children [] parent_count depth child_x x_width height total_a total_b
     max_count fid_counter = ([], fid_counter)"
| "render_diff_children (child # cs) parent_count depth child_x x_width height total_a total_b
     max_count fid_counter =
     (let w = child_w_d x_width parent_count child;
          first = render_diff_frame child depth child_x w height total_a total_b max_count
                    fid_counter;
          rest = render_diff_children cs parent_count depth (child_x + w) x_width height
                   total_a total_b max_count (snd first)
      in (fst first @ fst rest, snd rest))"

record diff_svg =
  d_width :: int
  d_height :: int
  d_title :: string
  d_total_a :: int
  d_total_b :: int
  d_groups :: "group list"

definition render_diff_svg :: "DiffFrame \<Rightarrow> int \<Rightarrow> int \<Rightarrow> string \<Rightarrow> int \<Rightarrow> diff_svg" where
  "render_diff_svg root_frame total_a total_b title width =
     (let sorted = sort_children_d root_frame;
          depth = max_depth_d sorted 0;
          height = (int depth + 2) * FRAME_HEIGHT + 100;
          max_count = max (max (count_a sorted) (count_b sorted)) 1
      in \<lparr>d_width = width, d_height = height, d_title = xml_escape title,
           d_total_a = total_a, d_total_b = total_b,
           d_groups = fst (render_diff_frame sorted 0 (real_of_int MARGIN)
                             (real_of_int (width - 2 * MARGIN)) height total_a total_b
                             max_count 0)\<rparr>)"

text \<open>Sibling names are unique, at every node.\<close>

fun unique_names :: "Frame \<Rightarrow> bool" where
  "unique_names (Frame n k s ch) \<longleftrightarrow>
     distinct (map name ch) \<and> (\<forall>c \<in> set ch. unique_names c)"

text \<open>
  The counterparts of \<open>add_child\<close> and \<open>add_stack\<close> on sorted trees, used to reason about
  \<open>sort_children\<close>: a new child is put at its place in the order of names instead of at
  the end.
\<close>

definition place_child :: "string \<Rightarrow> (Frame \<Rightarrow> Frame) \<Rightarrow> Frame list \<Rightarrow> Frame list" where
  "place_child f g xs =
     (if f \<in> name ` set xs then map (\<lambda>x. if name x = f then g x else x) xs
      else insort_key name (g (Frame f 0 0 [])) xs)"

fun place_stack :: "int \<Rightarrow> string list \<Rightarrow> Frame \<Rightarrow> Frame" where
  "place_stack c [] (Frame n k s ch) = Frame n (k + c) (s + c) ch"
| "place_stack c (f # fs) (Frame n k s ch) =
     Frame n (k + c) s (place_child f (\<lambda>child. place_stack c fs child) ch)"

text \<open>What one input line does to the tree, and what it adds to the total.\<close>

definition add_line_tree :: "string \<Rightarrow> Frame \<Rightarrow> Frame" where
  "add_line_tree raw t =
     (case parse_line raw of
        None \<Rightarrow> t
      | Some (stack_str, c) \<Rightarrow> add_stack c (split CHR '';'' stack_str) t)"

definition place_line_tree :: "string \<Rightarrow> Frame \<Rightarrow> Frame" where
  "place_line_tree raw t =
     (case parse_line raw of
        None \<Rightarrow> t
      | Some (stack_str, c) \<Rightarrow> place_stack c (split CHR '';'' stack_str) t)"

definition line_count :: "string \<Rightarrow> int" where
  "line_count raw = (case parse_line raw of None \<Rightarrow> 0 | Some (stack_str, c) \<Rightarrow> c)"

text \<open>The same for the tree of \<^verbatim>\<open>flamediff.py\<close>.\<close>

fun unique_names_d :: "DiffFrame \<Rightarrow> bool" where
  "unique_names_d (DiffFrame n ka kb sa sb ch) \<longleftrightarrow>
     distinct (map name_d ch) \<and> (\<forall>c \<in> set ch. unique_names_d c)"

definition place_child_d ::
    "string \<Rightarrow> (DiffFrame \<Rightarrow> DiffFrame) \<Rightarrow> DiffFrame list \<Rightarrow> DiffFrame list" where
  "place_child_d f g xs =
     (if f \<in> name_d ` set xs then map (\<lambda>x. if name_d x = f then g x else x) xs
      else insort_key name_d (g (DiffFrame f 0 0 0 0 [])) xs)"

fun place_stack_d :: "int \<Rightarrow> int \<Rightarrow> string list \<Rightarrow> DiffFrame \<Rightarrow> DiffFrame" where
  "place_stack_d a b [] (DiffFrame n ka kb sa sb ch) =
     DiffFrame n (ka + a) (kb + b) (sa + a) (sb + b) ch"
| "place_stack_d a b (f # fs) (DiffFrame n ka kb sa sb ch) =
     DiffFrame n (ka + a) (kb + b) sa sb
       (place_child_d f (\<lambda>child. place_stack_d a b fs child) ch)"

text \<open>What \<^verbatim>\<open>build_diff_tree\<close> does for one call path, and its counterpart on sorted trees.\<close>

definition add_path_d :: "stacks \<Rightarrow> stacks \<Rightarrow> string \<Rightarrow> DiffFrame \<Rightarrow> DiffFrame" where
  "add_path_d stacks_a stacks_b stack_str t =
     add_stack_d (dict_get stacks_a stack_str 0) (dict_get stacks_b stack_str 0)
       (split CHR '';'' stack_str) t"

definition place_path_d :: "stacks \<Rightarrow> stacks \<Rightarrow> string \<Rightarrow> DiffFrame \<Rightarrow> DiffFrame" where
  "place_path_d stacks_a stacks_b stack_str t =
     place_stack_d (dict_get stacks_a stack_str 0) (dict_get stacks_b stack_str 0)
       (split CHR '';'' stack_str) t"

section \<open>Properties\<close>

subsection \<open>Inclusive and self counts\<close>

lemma sum_count_add_child:
  assumes "\<And>x. count (g x) = count x + c"
  shows "sum_list (map count (add_child f g ch)) = sum_list (map count ch) + c"
  using assms by (induction ch) simp_all

lemma count_add_stack: "count (add_stack c p t) = count t + c"
  by (cases t; cases p) simp_all

lemma all_balanced_Frame:
  "all_balanced (Frame n k s ch) \<longleftrightarrow>
     k = s + sum_list (map count ch) \<and> (\<forall>x \<in> set ch. all_balanced x)"
  by (auto simp: all_balanced_def balanced_def)

lemma all_balanced_add_child:
  assumes "\<forall>x \<in> set ch. all_balanced x"
    and "\<And>x. all_balanced x \<Longrightarrow> all_balanced (g x)"
  shows "\<forall>x \<in> set (add_child f g ch). all_balanced x"
  using assms(1)
proof (induction ch)
  case Nil
  have "all_balanced (Frame f 0 0 [])"
    by (simp add: all_balanced_Frame)
  then show ?case
    by (simp add: assms(2))
next
  case (Cons x xs)
  then show ?case
    by (simp add: assms(2))
qed

lemma all_balanced_add_stack: "all_balanced t \<Longrightarrow> all_balanced (add_stack c p t)"
proof (induction p arbitrary: t)
  case Nil
  then show ?case
    by (cases t) (simp add: all_balanced_Frame)
next
  case (Cons f fs)
  obtain n k s ch where t: "t = Frame n k s ch"
    by (cases t)
  from Cons.prems have top: "k = s + sum_list (map count ch)"
    and sub: "\<forall>x \<in> set ch. all_balanced x"
    by (simp_all add: t all_balanced_Frame)
  have sub': "\<forall>x \<in> set (add_child f (\<lambda>child. add_stack c fs child) ch). all_balanced x"
    by (rule all_balanced_add_child [OF sub]) (rule Cons.IH)
  have "sum_list (map count (add_child f (\<lambda>child. add_stack c fs child) ch))
          = sum_list (map count ch) + c"
    by (rule sum_count_add_child) (rule count_add_stack)
  with top sub' show ?case
    by (simp add: t all_balanced_Frame)
qed

lemma all_balanced_fold_add_line:
  "all_balanced (fst st) \<Longrightarrow> all_balanced (fst (fold add_line ls st))"
proof (induction ls arbitrary: st)
  case Nil
  then show ?case by simp
next
  case (Cons l ls)
  have "all_balanced (fst (add_line l st))"
    using Cons.prems by (auto simp: add_line_def all_balanced_add_stack split: option.splits)
  then show ?case
    by (simp add: Cons.IH)
qed

text \<open>
  C1. In single-profile mode, every node of the tree that \<^verbatim>\<open>parse_folded\<close> builds, from any
  sequence of lines, has an inclusive count equal to its self count plus the sum of the
  inclusive counts of its immediate children.
\<close>

theorem parse_folded_inclusive_self:
  "\<forall>node \<in> set (nodes (fst (parse_folded lines))).
     count node = self_count node + sum_list (map count (children node))"
proof -
  have "all_balanced (fst (Frame ''root'' 0 0 [], 0::int))"
    by (simp add: all_balanced_Frame)
  then have "all_balanced (fst (parse_folded lines))"
    unfolding parse_folded_def by (rule all_balanced_fold_add_line)
  then show ?thesis
    by (simp add: all_balanced_def balanced_def)
qed

lemma parse_folded_example:
  "parse_folded [''a;b 5'', ''a 7'']
     = (Frame ''root'' 12 0 [Frame ''a'' 12 7 [Frame ''b'' 5 5 []]], 12)"
  by code_simp

theorem parse_folded_inclusive_self_witness:
  "fst (parse_folded [''a;b 5'', ''a 7''])
     = Frame ''root'' 12 0 [Frame ''a'' 12 7 [Frame ''b'' 5 5 []]]
   \<and> Frame ''a'' 12 7 [Frame ''b'' 5 5 []]
       \<in> set (nodes (fst (parse_folded [''a;b 5'', ''a 7''])))
   \<and> count (Frame ''a'' 12 7 [Frame ''b'' 5 5 []])
       = self_count (Frame ''a'' 12 7 [Frame ''b'' 5 5 []])
         + sum_list (map count (children (Frame ''a'' 12 7 [Frame ''b'' 5 5 []])))"
  using parse_folded_inclusive_self [of "[''a;b 5'', ''a 7'']"]
  unfolding parse_folded_example fst_conv by simp

subsection \<open>Root totals\<close>

lemma count_fold_add_line:
  "count (fst (fold add_line ls st)) - snd (fold add_line ls st) = count (fst st) - snd st"
proof (induction ls arbitrary: st)
  case Nil
  show ?case by simp
next
  case (Cons l ls)
  have "count (fst (add_line l st)) - snd (add_line l st) = count (fst st) - snd st"
    by (simp add: add_line_def count_add_stack split: option.splits)
  with Cons.IH [of "add_line l st"] show ?case
    by simp
qed

lemma map_fst_dict_add:
  "map fst (dict_add k c d) = (if k \<in> set (map fst d) then map fst d else map fst d @ [k])"
  by (induction d) (fastforce simp: image_iff)+

lemma keys_dict_add: "fst ` set (dict_add k c d) = insert k (fst ` set d)"
proof -
  have "set (map fst (dict_add k c d)) = insert k (set (map fst d))"
    unfolding map_fst_dict_add by auto
  then show ?thesis by simp
qed

lemma distinct_dict_add: "distinct (map fst d) \<Longrightarrow> distinct (map fst (dict_add k c d))"
  unfolding map_fst_dict_add by simp

lemma sum_dict_add: "sum_list (map snd (dict_add k c d)) = sum_list (map snd d) + c"
  by (induction d) auto

lemma map_of_dict_add:
  "map_of (dict_add k c d) k' =
     (if k' = k then Some (dict_get d k 0 + c) else map_of d k')"
  by (induction d) (auto simp: dict_get_def)

lemma parse_folded_d_invariant:
  assumes "distinct (map fst (fst st))" and "snd st = sum_list (map snd (fst st))"
  shows "distinct (map fst (fst (fold add_line_d ls st)))
         \<and> snd (fold add_line_d ls st) = sum_list (map snd (fst (fold add_line_d ls st)))"
  using assms
proof (induction ls arbitrary: st)
  case Nil
  then show ?case by simp
next
  case (Cons l ls)
  have "distinct (map fst (fst (add_line_d l st)))"
    using Cons.prems(1) by (auto simp: add_line_d_def distinct_dict_add split: option.splits)
  moreover have "snd (add_line_d l st) = sum_list (map snd (fst (add_line_d l st)))"
    using Cons.prems(2) by (auto simp: add_line_d_def sum_dict_add split: option.splits)
  ultimately show ?case
    using Cons.IH [of "add_line_d l st"] by simp
qed

lemma distinct_parse_folded_d: "distinct (map fst (fst (parse_folded_d ls)))"
  using parse_folded_d_invariant [of "([], 0)" ls] by (simp add: parse_folded_d_def)

lemma total_parse_folded_d: "snd (parse_folded_d ls) = sum_list (map snd (fst (parse_folded_d ls)))"
  using parse_folded_d_invariant [of "([], 0)" ls] by (simp add: parse_folded_d_def)

lemma counts_add_stack_d:
  "count_a (add_stack_d a b p t) = count_a t + a" "count_b (add_stack_d a b p t) = count_b t + b"
  by (cases t; cases p; simp)+

lemma counts_fold_add_stack_d:
  "count_a (fold (\<lambda>k t. add_stack_d (fa k) (fb k) (path k) t) ks t) = count_a t + sum_list (map fa ks)
   \<and> count_b (fold (\<lambda>k t. add_stack_d (fa k) (fb k) (path k) t) ks t) = count_b t + sum_list (map fb ks)"
  by (induction ks arbitrary: t) (simp_all add: counts_add_stack_d)

lemma sum_dict_get:
  assumes "distinct (map fst d)" and "distinct ks" and "fst ` set d \<subseteq> set ks"
  shows "sum_list (map (\<lambda>k. dict_get d k 0) ks) = sum_list (map snd d)"
proof -
  have "sum_list (map (\<lambda>k. dict_get d k 0) ks) = sum (\<lambda>k. dict_get d k 0) (set ks)"
    using assms(2) by (simp add: sum_list_distinct_conv_sum_set)
  also have "\<dots> = sum (\<lambda>k. dict_get d k 0) (fst ` set d)"
  proof (rule sum.mono_neutral_right)
    show "finite (set ks)" by simp
    show "fst ` set d \<subseteq> set ks" by (rule assms(3))
    show "\<forall>k \<in> set ks - fst ` set d. dict_get d k 0 = 0"
    proof
      fix k assume "k \<in> set ks - fst ` set d"
      then have "map_of d k = None" by (simp add: map_of_eq_None_iff)
      then show "dict_get d k 0 = 0" by (simp add: dict_get_def)
    qed
  qed
  also have "\<dots> = sum_list (map (\<lambda>k. dict_get d k 0) (map fst d))"
    using assms(1) by (metis sum_list_distinct_conv_sum_set set_map)
  also have "map (\<lambda>k. dict_get d k 0) (map fst d) = map snd d"
    using assms(1) by (auto simp: dict_get_def)
  finally show ?thesis .
qed

text \<open>
  C2. The inclusive count of the root is the total sample count of its profile: in single
  mode the root's count is the total that \<^verbatim>\<open>parse_folded\<close> returns; in differential mode, for
  every order in which the set of call paths is iterated, the root's \<open>count_a\<close> is the sum
  of the aggregated counts of the before-profile and its \<open>count_b\<close> the sum of those of the
  after-profile, which are the totals that the parser returns.
\<close>

theorem root_totals:
  "count (fst (parse_folded lines)) = snd (parse_folded lines)
   \<and> (iteration_of (fst (parse_folded_d lines_a)) (fst (parse_folded_d lines_b)) all_stacks \<longrightarrow>
        count_a (build_diff_tree (fst (parse_folded_d lines_a)) (snd (parse_folded_d lines_a))
                   (fst (parse_folded_d lines_b)) (snd (parse_folded_d lines_b)) all_stacks)
          = sum_list (map snd (fst (parse_folded_d lines_a)))
        \<and> count_b (build_diff_tree (fst (parse_folded_d lines_a)) (snd (parse_folded_d lines_a))
                   (fst (parse_folded_d lines_b)) (snd (parse_folded_d lines_b)) all_stacks)
          = sum_list (map snd (fst (parse_folded_d lines_b)))
        \<and> sum_list (map snd (fst (parse_folded_d lines_a))) = snd (parse_folded_d lines_a)
        \<and> sum_list (map snd (fst (parse_folded_d lines_b))) = snd (parse_folded_d lines_b))"
proof -
  have single: "count (fst (parse_folded lines)) = snd (parse_folded lines)"
    using count_fold_add_line [of lines "(Frame ''root'' 0 0 [], 0)"]
    by (simp add: parse_folded_def)
  {
    assume it: "iteration_of (fst (parse_folded_d lines_a)) (fst (parse_folded_d lines_b)) all_stacks"
    then have d: "distinct all_stacks"
      and a: "fst ` set (fst (parse_folded_d lines_a)) \<subseteq> set all_stacks"
      and b: "fst ` set (fst (parse_folded_d lines_b)) \<subseteq> set all_stacks"
      by (auto simp: iteration_of_def)
    have "sum_list (map (\<lambda>k. dict_get (fst (parse_folded_d lines_a)) k 0) all_stacks)
            = sum_list (map snd (fst (parse_folded_d lines_a)))"
      by (rule sum_dict_get [OF distinct_parse_folded_d d a])
    moreover have "sum_list (map (\<lambda>k. dict_get (fst (parse_folded_d lines_b)) k 0) all_stacks)
            = sum_list (map snd (fst (parse_folded_d lines_b)))"
      by (rule sum_dict_get [OF distinct_parse_folded_d d b])
    ultimately have
      "count_a (build_diff_tree (fst (parse_folded_d lines_a)) (snd (parse_folded_d lines_a))
                   (fst (parse_folded_d lines_b)) (snd (parse_folded_d lines_b)) all_stacks)
          = sum_list (map snd (fst (parse_folded_d lines_a)))
        \<and> count_b (build_diff_tree (fst (parse_folded_d lines_a)) (snd (parse_folded_d lines_a))
                   (fst (parse_folded_d lines_b)) (snd (parse_folded_d lines_b)) all_stacks)
          = sum_list (map snd (fst (parse_folded_d lines_b)))"
      unfolding build_diff_tree_def
      using counts_fold_add_stack_d [of "\<lambda>k. dict_get (fst (parse_folded_d lines_a)) k 0"
          "\<lambda>k. dict_get (fst (parse_folded_d lines_b)) k 0" "split CHR '';''" all_stacks
          "DiffFrame ''root'' 0 0 0 0 []"]
      by simp
  }
  with single show ?thesis
    by (simp add: total_parse_folded_d [symmetric])
qed

lemma parse_folded_d_example_a:
  "parse_folded_d [''a;b 100'', ''c 2'', ''a;b 1''] = ([(''a;b'', 101), (''c'', 2)], 103)"
  by code_simp

lemma parse_folded_d_example_b:
  "parse_folded_d [''a;b 50'', ''d 5''] = ([(''a;b'', 50), (''d'', 5)], 55)"
  by code_simp

lemma build_diff_tree_example:
  "build_diff_tree [(''a;b'', 101), (''c'', 2)] 103 [(''a;b'', 50), (''d'', 5)] 55
     [''d'', ''a;b'', ''c'']
   = DiffFrame ''root'' 103 55 0 0
       [DiffFrame ''d'' 0 5 0 5 [],
        DiffFrame ''a'' 101 50 0 0 [DiffFrame ''b'' 101 50 101 50 []],
        DiffFrame ''c'' 2 0 2 0 []]"
  by code_simp

lemma iteration_of_example:
  "iteration_of [(''a;b'', 101), (''c'', 2)] [(''a;b'', 50), (''d'', 5)] [''d'', ''a;b'', ''c'']"
  by (auto simp: iteration_of_def)

theorem root_totals_witness:
  "iteration_of (fst (parse_folded_d [''a;b 100'', ''c 2'', ''a;b 1'']))
     (fst (parse_folded_d [''a;b 50'', ''d 5''])) [''d'', ''a;b'', ''c'']
   \<and> count (fst (parse_folded [''a;b 5'', ''a 7''])) = 12
   \<and> snd (parse_folded [''a;b 5'', ''a 7'']) = 12
   \<and> count_a (build_diff_tree [(''a;b'', 101), (''c'', 2)] 103 [(''a;b'', 50), (''d'', 5)] 55
                [''d'', ''a;b'', ''c'']) = 103
   \<and> count_b (build_diff_tree [(''a;b'', 101), (''c'', 2)] 103 [(''a;b'', 50), (''d'', 5)] 55
                [''d'', ''a;b'', ''c'']) = 55"
  using root_totals [of "[''a;b 5'', ''a 7'']" "[''a;b 100'', ''c 2'', ''a;b 1'']"
      "[''a;b 50'', ''d 5'']" "[''d'', ''a;b'', ''c'']"] iteration_of_example
  unfolding parse_folded_d_example_a parse_folded_d_example_b parse_folded_example
    fst_conv snd_conv
  by simp

subsection \<open>Tolerant reading of lines\<close>










subsection \<open>Aggregation by call path\<close>

lemma dict_get_dict_add:
  "dict_get (dict_add k c d) k' 0 = dict_get d k' 0 + (if k' = k then c else 0)"
  by (simp add: dict_get_def map_of_dict_add split: option.splits)

lemma dict_get_add_line_d:
  "dict_get (fst (add_line_d l st)) p 0 = dict_get (fst st) p 0 + weight_of p l"
  by (auto simp: add_line_d_def weight_of_def dict_get_dict_add split: option.splits)

lemma keys_add_line_d:
  "fst ` set (fst (add_line_d l st)) = fst ` set (fst st) \<union> {p. carries p l}"
  by (auto simp: add_line_d_def carries_def keys_dict_add split: option.splits)

lemma dict_get_fold_add_line_d:
  "dict_get (fst (fold add_line_d ls st)) p 0
     = dict_get (fst st) p 0 + sum_list (map (weight_of p) ls)"
  by (induction ls arbitrary: st) (simp_all add: dict_get_add_line_d)

lemma keys_fold_add_line_d:
  "fst ` set (fst (fold add_line_d ls st))
     = fst ` set (fst st) \<union> {p. \<exists>l \<in> set ls. carries p l}"
  by (induction ls arbitrary: st) (auto simp: keys_add_line_d)

lemma dict_get_parse_folded_d:
  "dict_get (fst (parse_folded_d ls)) p 0 = sum_list (map (weight_of p) ls)"
proof -
  have "dict_get [] p 0 = 0"
    by (simp add: dict_get_def)
  then show ?thesis
    by (simp add: parse_folded_d_def dict_get_fold_add_line_d)
qed

lemma keys_parse_folded_d:
  "fst ` set (fst (parse_folded_d ls)) = {p. \<exists>l \<in> set ls. carries p l}"
  by (simp add: parse_folded_d_def keys_fold_add_line_d)

lemma entry_of_key:
  assumes "distinct (map fst d)" and "k \<in> fst ` set d"
  shows "filter (\<lambda>e. fst e = k) d = [(k, dict_get d k 0)]"
  using assms
proof (induction d)
  case Nil
  then show ?case by simp
next
  case (Cons e d)
  obtain k' v where e: "e = (k', v)" by (cases e)
  show ?case
  proof (cases "k' = k")
    case True
    with Cons.prems have "filter (\<lambda>e. fst e = k) d = []"
      by (auto simp: e filter_empty_conv image_iff)
    with True show ?thesis
      by (simp add: e dict_get_def)
  next
    case False
    with Cons show ?thesis
      by (auto simp: e dict_get_def)
  qed
qed

lemma weight_of_other: "\<not> carries p l \<Longrightarrow> weight_of p l = 0"
  by (auto simp: carries_def weight_of_def split: option.splits)

lemma sum_weight_others: "\<forall>l \<in> set ls. \<not> carries p l \<Longrightarrow> sum_list (map (weight_of p) ls) = 0"
  by (induction ls) (simp_all add: weight_of_other)

text \<open>
  C4. When two lines of the input are read as samples of the same call path \<open>p\<close>, with
  counts \<open>a\<close> and \<open>b\<close>, and no other line of the input is a sample of \<open>p\<close>, the mapping that
  \<^verbatim>\<open>parse_folded\<close> of \<^verbatim>\<open>flamediff.py\<close> returns has exactly one entry for \<open>p\<close>, and its count is
  \<open>a + b\<close>. For every input the keys of the mapping are distinct call paths and the
  returned total is the sum of the aggregated counts.
\<close>

theorem aggregation:
  "(parse_line l1 = Some (p, a) \<and> parse_line l2 = Some (p, b)
      \<and> (\<forall>l \<in> set (xs @ ys @ zs). \<not> carries p l) \<longrightarrow>
        filter (\<lambda>e. fst e = p) (fst (parse_folded_d (xs @ l1 # ys @ l2 # zs))) = [(p, a + b)])
   \<and> distinct (map fst (fst (parse_folded_d lines)))
   \<and> snd (parse_folded_d lines) = sum_list (map snd (fst (parse_folded_d lines)))"
proof -
  {
    assume l1: "parse_line l1 = Some (p, a)" and l2: "parse_line l2 = Some (p, b)"
      and others: "\<forall>l \<in> set (xs @ ys @ zs). \<not> carries p l"
    let ?ls = "xs @ l1 # ys @ l2 # zs"
    have "carries p l1"
      by (simp add: carries_def l1)
    then have key: "p \<in> fst ` set (fst (parse_folded_d ?ls))"
      unfolding keys_parse_folded_d by auto
    have w: "weight_of p l1 = a" "weight_of p l2 = b"
      by (simp_all add: weight_of_def l1 l2)
    have z: "sum_list (map (weight_of p) xs) = 0" "sum_list (map (weight_of p) ys) = 0"
      "sum_list (map (weight_of p) zs) = 0"
      using others by (simp_all add: sum_weight_others)
    have "dict_get (fst (parse_folded_d ?ls)) p 0 = a + b"
      unfolding dict_get_parse_folded_d by (simp add: w z)
    with entry_of_key [OF distinct_parse_folded_d key]
    have "filter (\<lambda>e. fst e = p) (fst (parse_folded_d ?ls)) = [(p, a + b)]"
      by simp
  }
  then show ?thesis
    using distinct_parse_folded_d [of lines] total_parse_folded_d [of lines] by blast
qed

lemma aggregation_example:
  "parse_line ''a;b 3'' = Some (''a;b'', 3)"
  "parse_line ''a;b 4'' = Some (''a;b'', 4)"
  "\<not> carries ''a;b'' ''# a;b 1''"
  "\<not> carries ''a;b'' ''a;c 9''"
  by code_simp+

theorem aggregation_witness:
  "parse_line ''a;b 3'' = Some (''a;b'', 3) \<and> parse_line ''a;b 4'' = Some (''a;b'', 4)
   \<and> \<not> carries ''a;b'' ''# a;b 1'' \<and> \<not> carries ''a;b'' ''a;c 9''
   \<and> filter (\<lambda>e. fst e = ''a;b'')
         (fst (parse_folded_d ([''# a;b 1''] @ ''a;b 3'' # [''a;c 9''] @ ''a;b 4'' # [])))
       = [(''a;b'', 3 + 4)]"
proof -
  have "\<forall>l \<in> set ([''# a;b 1''] @ [''a;c 9''] @ []). \<not> carries ''a;b'' l"
    using aggregation_example(3,4) by simp
  with aggregation [of "''a;b 3''" "''a;b''" 3 "''a;b 4''" 4 "[''# a;b 1'']" "[''a;c 9'']" "[]"]
    aggregation_example
  show ?thesis
    by blast
qed

subsection \<open>The differential palette\<close>








subsection \<open>The identity palette and the colour of the root\<close>



lemma name_sort_children: "name (sort_children t) = name t"
  by (cases t) simp






subsection \<open>How the two tools end\<close>

lemma main_exit:
  "lines = [] \<or> snd (parse_folded lines) = 0 \<Longrightarrow>
     main md5_hex8 lines title width = Exit 1 ''flamegraph.py: no input''
     \<or> main md5_hex8 lines title width = Exit 1 ''flamegraph.py: no samples found in input''"
  by (auto simp: main_def split: prod.splits)

lemma main_d_unresolved:
  "falsy (fst (resolve_files a)) \<or> falsy (snd (resolve_files a)) \<Longrightarrow>
     main_d a read_lines = Inl (Exit 2 ''Need two input files: before.folded after.folded'')"
  by (auto simp: main_d_def parser_error_def split: prod.splits)

lemma main_d_zero:
  assumes "resolve_files a = (Some before_file, Some after_file)"
    and "before_file \<noteq> []" and "after_file \<noteq> []"
    and "read_lines before_file = Some lines_a" and "read_lines after_file = Some lines_b"
    and "snd (parse_folded_d lines_a) = 0 \<or> snd (parse_folded_d lines_b) = 0"
  shows "main_d a read_lines = Inl (Exit 1 (''flamediff.py: no samples in '' @ before_file))
     \<or> main_d a read_lines = Inl (Exit 1 (''flamediff.py: no samples in '' @ after_file))"
  using assms by (auto simp: main_d_def falsy_def split: prod.splits)

text \<open>
  C9, as stated, fails: the claim gives exit status 1 to the differential tool when fewer
  than two input files can be resolved from its arguments. With one positional file and
  neither \<^verbatim>\<open>-a\<close> nor \<^verbatim>\<open>-b\<close>, no second file is resolved, and the tool ends in
  \<^verbatim>\<open>parser.error\<close>, that is with exit status 2.
\<close>

theorem exit_status_one_counterexample:
  "falsy (snd (resolve_files \<lparr>files = [''only.folded''], before = None, after = None\<rparr>))
   \<and> main_d \<lparr>files = [''only.folded''], before = None, after = None\<rparr> (\<lambda>_. Some [])
       = Inl (Exit 2 ''Need two input files: before.folded after.folded'')
   \<and> main_d \<lparr>files = [''only.folded''], before = None, after = None\<rparr> (\<lambda>_. Some [])
       \<noteq> Inl (Exit 1 ''Need two input files: before.folded after.folded'')"
  by (simp add: main_d_def resolve_files_def falsy_def py_or_def parser_error_def)

text \<open>
  C9, amended. The single-profile tool ends with exit status 1 and a message on the error
  stream, and writes no document, when it read no line or when the total sample count is
  0. The differential tool, once two files are resolved and read, ends with exit status 1
  and a message naming the file when the total of either profile is 0. When fewer than two
  input files are resolved from the arguments, the differential tool ends in the argument
  parser's error, with exit status 2.
\<close>

theorem exit_statuses:
  "(lines = [] \<or> snd (parse_folded lines) = 0 \<longrightarrow>
      main md5_hex8 lines title width = Exit 1 ''flamegraph.py: no input''
      \<or> main md5_hex8 lines title width = Exit 1 ''flamegraph.py: no samples found in input'')
   \<and> (resolve_files a = (Some before_file, Some after_file)
        \<and> before_file \<noteq> [] \<and> after_file \<noteq> []
        \<and> read_lines before_file = Some lines_a \<and> read_lines after_file = Some lines_b
        \<and> (snd (parse_folded_d lines_a) = 0 \<or> snd (parse_folded_d lines_b) = 0) \<longrightarrow>
      main_d a read_lines = Inl (Exit 1 (''flamediff.py: no samples in '' @ before_file))
      \<or> main_d a read_lines = Inl (Exit 1 (''flamediff.py: no samples in '' @ after_file)))
   \<and> (falsy (fst (resolve_files a)) \<or> falsy (snd (resolve_files a)) \<longrightarrow>
      main_d a read_lines = Inl (Exit 2 ''Need two input files: before.folded after.folded''))"
  using main_exit [of lines md5_hex8 title width] main_d_unresolved [of a read_lines]
    main_d_zero [of a before_file after_file read_lines lines_a lines_b]
  by blast

lemma exit_examples:
  "parse_folded [''# only'', ''''] = (Frame ''root'' 0 0 [], 0)"
  "parse_folded_d [''# only'', ''''] = ([], 0)"
  "resolve_files \<lparr>files = [''x'', ''y''], before = None, after = None\<rparr> = (Some ''x'', Some ''y'')"
  "falsy (snd (resolve_files \<lparr>files = [''x''], before = None, after = None\<rparr>))"
  by (code_simp, code_simp, simp_all add: resolve_files_def py_or_def falsy_def)

theorem exit_statuses_witness:
  "snd (parse_folded [''# only'', '''']) = 0
   \<and> main (\<lambda>_. 0) [''# only'', ''''] ''Flame Graph'' 1200
       = Exit 1 ''flamegraph.py: no samples found in input''
   \<and> main (\<lambda>_. 0) [] ''Flame Graph'' 1200 = Exit 1 ''flamegraph.py: no input''
   \<and> snd (parse_folded_d [''# only'', '''']) = 0
   \<and> main_d \<lparr>files = [''x'', ''y''], before = None, after = None\<rparr> (\<lambda>_. Some [''# only'', ''''])
       = Inl (Exit 1 ''flamediff.py: no samples in x'')
   \<and> falsy (snd (resolve_files \<lparr>files = [''x''], before = None, after = None\<rparr>))
   \<and> main_d \<lparr>files = [''x''], before = None, after = None\<rparr> (\<lambda>_. Some [''# only'', ''''])
       = Inl (Exit 2 ''Need two input files: before.folded after.folded'')"
proof -
  note ex = exit_statuses [of "[''# only'', '''']" "\<lambda>_. 0" "''Flame Graph''" 1200
      "\<lparr>files = [''x'', ''y''], before = None, after = None\<rparr>" "''x''" "''y''"
      "\<lambda>_. Some [''# only'', '''']" "[''# only'', '''']" "[''# only'', '''']"]
  have z: "snd (parse_folded [''# only'', '''']) = 0" "snd (parse_folded_d [''# only'', '''']) = 0"
    by (simp_all add: exit_examples)
  have m1: "main (\<lambda>_. 0) [''# only'', ''''] ''Flame Graph'' 1200
              = Exit 1 ''flamegraph.py: no samples found in input''"
    by (simp add: main_def exit_examples(1))
  have m2: "main (\<lambda>_. 0) [] ''Flame Graph'' 1200 = Exit 1 ''flamegraph.py: no input''"
    by (simp add: main_def)
  have d1: "main_d \<lparr>files = [''x'', ''y''], before = None, after = None\<rparr>
              (\<lambda>_. Some [''# only'', '''']) = Inl (Exit 1 ''flamediff.py: no samples in x'')"
    by (simp add: main_d_def falsy_def exit_examples(2,3))
  have d2: "main_d \<lparr>files = [''x''], before = None, after = None\<rparr> (\<lambda>_. Some [''# only'', ''''])
              = Inl (Exit 2 ''Need two input files: before.folded after.folded'')"
    by (simp add: main_d_def resolve_files_def falsy_def py_or_def parser_error_def)
  from ex z m1 m2 d1 d2 exit_examples(4) show ?thesis
    by blast
qed

subsection \<open>Escaping of frame names\<close>

lemma replace_concat: "replace old new (concat xss) = concat (map (replace old new) xss)"
  by (induction xss) (simp_all add: replace_def)

lemma replace_concat_map:
  "replace old new (concat (map f s)) = concat (map (\<lambda>x. replace old new (f x)) s)"
  by (simp add: replace_concat comp_def)

lemma replace_as_map: "replace old new s = concat (map (\<lambda>x. if x = old then new else [x]) s)"
  by (simp add: replace_def)

lemma entity_steps:
  "replace CHR 0x22 ''&quot;''
     (replace CHR ''>'' ''&gt;''
       (replace CHR ''<'' ''&lt;'' (if c = CHR ''&'' then ''&amp;'' else [c]))) = entity c"
  by (simp add: entity_def replace_def)

lemma xml_escape_entity: "xml_escape s = concat (map entity s)"
proof -
  have "xml_escape s =
          concat (map (\<lambda>c. replace CHR 0x22 ''&quot;''
                        (replace CHR ''>'' ''&gt;''
                          (replace CHR ''<'' ''&lt;'' (if c = CHR ''&'' then ''&amp;'' else [c])))) s)"
    unfolding xml_escape_def replace_as_map [of "CHR ''&''" _ s] replace_concat_map ..
  then show ?thesis
    by (simp only: entity_steps)
qed

lemma entity_no_markup:
  "CHR ''<'' \<notin> set (entity c)" "CHR ''>'' \<notin> set (entity c)" "CHR 0x22 \<notin> set (entity c)"
  by (simp_all add: entity_def)

lemma xml_escape_no_markup:
  "CHR ''<'' \<notin> set (xml_escape s) \<and> CHR ''>'' \<notin> set (xml_escape s)
   \<and> CHR 0x22 \<notin> set (xml_escape s)"
  unfolding xml_escape_entity using entity_no_markup by auto

lemma text_label_escaped:
  "text_label nm w = None \<or> text_label nm w = Some (xml_escape nm)
   \<or> (\<exists>k. text_label nm w = Some (xml_escape (take k nm) @ ''..''))"
  unfolding text_label_def Let_def by auto

lemma render_escaped:
  "\<forall>g \<in> set (fst (render_frame md5_hex8 frame depth x_left x_width h tot counter)).
     \<exists>node \<in> set (nodes frame). escaped_for (name node) g"
  "\<forall>g \<in> set (fst (render_children md5_hex8 cs frame_count depth child_x x_width h tot counter)).
     \<exists>c \<in> set cs. \<exists>node \<in> set (nodes c). escaped_for (name node) g"
proof (induction md5_hex8 frame depth x_left x_width h tot counter
    and md5_hex8 cs frame_count depth child_x x_width h tot counter
    rule: render_frame_render_children.induct)
  case (1 md5_hex8 nm k s ch depth x_left x_width svg_height tot counter)
  show ?case
  proof (cases "x_width < MIN_WIDTH_PX")
    case True
    then show ?thesis by simp
  next
    case False
    have self: "escaped_for nm
        \<lparr>g_id = counter, g_title = xml_escape nm, g_x = x_left,
         g_y = svg_height - 30 - (int depth + 1) * FRAME_HEIGHT, g_width = x_width,
         g_fill = (if depth = 0 then (200, 200, 200) else name_to_color md5_hex8 nm),
         g_data_name = xml_escape nm, g_label = text_label nm x_width\<rparr>"
      using text_label_escaped [of nm x_width] by (simp add: escaped_for_def)
    from False 1 have sub:
      "\<forall>g \<in> set (fst (render_children md5_hex8 ch k (depth + 1) x_left x_width svg_height tot
                           (counter + 1))).
         \<exists>c \<in> set ch. \<exists>node \<in> set (nodes c). escaped_for (name node) g"
      by simp
    show ?thesis
      using False self sub by (auto simp: Let_def)
  qed
next
  case (2 md5_hex8 frame_count depth child_x x_width svg_height tot counter)
  show ?case by simp
next
  case (3 md5_hex8 child cs frame_count depth child_x x_width svg_height tot counter)
  let ?w = "child_w x_width frame_count child"
  let ?first = "render_frame md5_hex8 child depth child_x ?w svg_height tot counter"
  have ih1: "\<forall>g \<in> set (fst ?first). \<exists>node \<in> set (nodes child). escaped_for (name node) g"
    by (rule "3.IH"(1) [OF refl])
  have ih2: "\<forall>g \<in> set (fst (render_children md5_hex8 cs frame_count depth (child_x + ?w) x_width
                                svg_height tot (snd ?first))).
               \<exists>c \<in> set cs. \<exists>node \<in> set (nodes c). escaped_for (name node) g"
    by (rule "3.IH"(2) [OF refl refl])
  have "fst (render_children md5_hex8 (child # cs) frame_count depth child_x x_width svg_height
               tot counter)
          = fst ?first @ fst (render_children md5_hex8 cs frame_count depth (child_x + ?w) x_width
                                svg_height tot (snd ?first))"
    by (simp add: Let_def)
  with ih1 ih2 show ?case
    by (simp only: set_append Un_iff set_simps) blast
qed

lemma render_diff_escaped:
  "\<forall>g \<in> set (fst (render_diff_frame frame depth x_left x_width h ta tb mc counter)).
     \<exists>node \<in> set (nodes_d frame). escaped_for (name_d node) g"
  "\<forall>g \<in> set (fst (render_diff_children cs parent_count depth child_x x_width h ta tb mc counter)).
     \<exists>c \<in> set cs. \<exists>node \<in> set (nodes_d c). escaped_for (name_d node) g"
proof (induction frame depth x_left x_width h ta tb mc counter
    and cs parent_count depth child_x x_width h ta tb mc counter
    rule: render_diff_frame_render_diff_children.induct)
  case (1 nm ka kb sa sb ch depth x_left x_width height total_a total_b max_count fid_counter)
  show ?case
  proof (cases "x_width < MIN_WIDTH_PX")
    case True
    then show ?thesis by simp
  next
    case False
    let ?pc = "if count_d (DiffFrame nm ka kb sa sb ch) > 0
               then count_d (DiffFrame nm ka kb sa sb ch) else 1"
    have self: "escaped_for nm
        \<lparr>g_id = fid_counter, g_title = xml_escape nm, g_x = x_left,
         g_y = height - 30 - (int depth + 1) * FRAME_HEIGHT, g_width = x_width,
         g_fill = (if depth = 0 then (200, 200, 200) else delta_color ka kb total_a total_b),
         g_data_name = xml_escape nm, g_label = text_label nm x_width\<rparr>"
      using text_label_escaped [of nm x_width] by (simp add: escaped_for_def)
    have sub:
      "\<forall>g \<in> set (fst (render_diff_children ch ?pc (depth + 1) x_left x_width height total_a
                           total_b max_count (fid_counter + 1))).
         \<exists>c \<in> set ch. \<exists>node \<in> set (nodes_d c). escaped_for (name_d node) g"
      by (rule "1.IH" [OF False refl refl refl refl refl refl])
    show ?thesis
      using False self sub by (auto simp: Let_def)
  qed
next
  case (2 parent_count depth child_x x_width height total_a total_b max_count fid_counter)
  show ?case by simp
next
  case (3 child cs parent_count depth child_x x_width height total_a total_b max_count
      fid_counter)
  let ?w = "child_w_d x_width parent_count child"
  let ?first = "render_diff_frame child depth child_x ?w height total_a total_b max_count
                  fid_counter"
  have ih1: "\<forall>g \<in> set (fst ?first). \<exists>node \<in> set (nodes_d child). escaped_for (name_d node) g"
    by (rule "3.IH"(1) [OF refl])
  have ih2: "\<forall>g \<in> set (fst (render_diff_children cs parent_count depth (child_x + ?w) x_width
                                height total_a total_b max_count (snd ?first))).
               \<exists>c \<in> set cs. \<exists>node \<in> set (nodes_d c). escaped_for (name_d node) g"
    by (rule "3.IH"(2) [OF refl refl])
  have "fst (render_diff_children (child # cs) parent_count depth child_x x_width height
               total_a total_b max_count fid_counter)
          = fst ?first @ fst (render_diff_children cs parent_count depth (child_x + ?w) x_width
                                height total_a total_b max_count (snd ?first))"
    by (simp add: Let_def)
  with ih1 ih2 show ?case
    by (simp only: set_append Un_iff set_simps) blast
qed

text \<open>
  C10. \<^verbatim>\<open>xml_escape\<close>, which replaces \<open>&\<close>, \<open><\<close>, \<open>>\<close> and the double quote in that order,
  gives the text in which each of these four characters is replaced by its entity, so its
  result contains no \<open><\<close>, no \<open>>\<close> and no double quote. Every group that \<^verbatim>\<open>render_frame\<close>
  writes, and so every group of the document, carries a frame's name only through
  \<^verbatim>\<open>xml_escape\<close>: in the tooltip title, in the \<^verbatim>\<open>data-name\<close> attribute, and in the text label,
  which is the escaped name or the escaped prefix of the name followed by two dots. The
  same holds for \<^verbatim>\<open>render_diff_frame\<close> and the document of the differential tool.
\<close>

theorem names_escaped:
  "xml_escape s = concat (map entity s)
   \<and> CHR ''<'' \<notin> set (xml_escape s) \<and> CHR ''>'' \<notin> set (xml_escape s)
   \<and> CHR 0x22 \<notin> set (xml_escape s)
   \<and> (\<forall>g \<in> set (fst (render_frame md5_hex8 frame depth x_left x_width h tot counter)).
         \<exists>node \<in> set (nodes frame). escaped_for (name node) g)
   \<and> (\<forall>g \<in> set (svg_groups (render_svg md5_hex8 root_frame tot title width)).
         \<exists>node \<in> set (nodes (sort_children root_frame)). escaped_for (name node) g)
   \<and> (\<forall>g \<in> set (fst (render_diff_frame frame_d depth x_left x_width h ta tb mc counter)).
         \<exists>node \<in> set (nodes_d frame_d). escaped_for (name_d node) g)
   \<and> (\<forall>g \<in> set (d_groups (render_diff_svg root_d ta tb title width)).
         \<exists>node \<in> set (nodes_d (sort_children_d root_d)). escaped_for (name_d node) g)"
proof -
  have "\<forall>g \<in> set (svg_groups (render_svg md5_hex8 root_frame tot title width)).
          \<exists>node \<in> set (nodes (sort_children root_frame)). escaped_for (name node) g"
    unfolding render_svg_def Let_def using render_escaped(1) by simp
  moreover have "\<forall>g \<in> set (d_groups (render_diff_svg root_d ta tb title width)).
          \<exists>node \<in> set (nodes_d (sort_children_d root_d)). escaped_for (name_d node) g"
    unfolding render_diff_svg_def Let_def using render_diff_escaped(1) by simp
  ultimately show ?thesis
    using xml_escape_entity [of s] xml_escape_no_markup [of s]
      render_escaped(1) [of md5_hex8 frame depth x_left x_width h tot counter]
      render_diff_escaped(1) [of frame_d depth x_left x_width h ta tb mc counter]
    by blast
qed

lemma render_markup_example:
  "fst (render_frame (\<lambda>_. 0) (Frame ''<x>'' 5 5 []) 0 10 1180 128 5 0)
   = [\<lparr>g_id = 0, g_title = ''&lt;x&gt;'', g_x = 10, g_y = 82, g_width = 1180,
        g_fill = (200, 200, 200), g_data_name = ''&lt;x&gt;'', g_label = Some ''&lt;x&gt;''\<rparr>]"
  by (simp add: Let_def FRAME_HEIGHT_def MIN_WIDTH_PX_def text_label_def CHAR_WIDTH_def
      xml_escape_def replace_def)

theorem names_escaped_witness:
  "xml_escape ''<x>'' = ''&lt;x&gt;''
   \<and> fst (render_frame (\<lambda>_. 0) (Frame ''<x>'' 5 5 []) 0 10 1180 128 5 0)
       = [\<lparr>g_id = 0, g_title = ''&lt;x&gt;'', g_x = 10, g_y = 82, g_width = 1180,
            g_fill = (200, 200, 200), g_data_name = ''&lt;x&gt;'', g_label = Some ''&lt;x&gt;''\<rparr>]
   \<and> escaped_for ''<x>''
        \<lparr>g_id = 0, g_title = ''&lt;x&gt;'', g_x = 10, g_y = 82, g_width = 1180,
         g_fill = (200, 200, 200), g_data_name = ''&lt;x&gt;'', g_label = Some ''&lt;x&gt;''\<rparr>"
proof -
  have e: "xml_escape ''<x>'' = ''&lt;x&gt;''"
    using names_escaped [of "''<x>''"] by (simp add: entity_def)
  have "\<forall>g \<in> set (fst (render_frame (\<lambda>_. 0) (Frame ''<x>'' 5 5 []) 0 10 1180 128 5 0)).
          \<exists>node \<in> set (nodes (Frame ''<x>'' 5 5 [])). escaped_for (name node) g"
    using names_escaped [of _ "\<lambda>_. 0" "Frame ''<x>'' 5 5 []" 0 10 1180 128 5 0] by blast
  then have "escaped_for ''<x>''
        \<lparr>g_id = 0, g_title = ''&lt;x&gt;'', g_x = 10, g_y = 82, g_width = 1180,
         g_fill = (200, 200, 200), g_data_name = ''&lt;x&gt;'', g_label = Some ''&lt;x&gt;''\<rparr>"
    unfolding render_markup_example by simp
  with e render_markup_example show ?thesis
    by blast
qed

subsection \<open>Widths of the children of a rendered node\<close>


lemma self_count_sort_children: "self_count (sort_children t) = self_count t"
  by (cases t) simp











subsection \<open>Independence of the order of the input lines\<close>

lemma name_add_stack: "name (add_stack c p t) = name t"
  by (cases t; cases p) simp_all

lemma name_place_stack: "name (place_stack c p t) = name t"
  by (cases t; cases p) simp_all

lemma map_insort_key:
  assumes "\<And>x. k (h x) = k x"
  shows "map h (insort_key k y xs) = insort_key k (h y) (map h xs)"
  by (induction xs) (simp_all add: assms)

lemma sort_key_map:
  assumes "\<And>x. k (h x) = k x"
  shows "sort_key k (map h xs) = map h (sort_key k xs)"
  by (induction xs) (simp_all add: map_insort_key assms)

lemma sort_key_snoc:
  assumes "k y \<notin> k ` set xs"
  shows "sort_key k (xs @ [y]) = insort_key k y (sort_key k xs)"
  using assms
proof (induction xs)
  case Nil
  show ?case by simp
next
  case (Cons x xs)
  then have "k x \<noteq> k y" and "k y \<notin> k ` set xs"
    by auto
  then show ?case
    using Cons.IH by (simp add: insort_key_left_comm)
qed

lemma names_add_child:
  assumes "\<And>x. name (g x) = name x"
  shows "map name (add_child f g ch)
           = (if f \<in> name ` set ch then map name ch else map name ch @ [f])"
  by (induction ch) (auto simp: assms)

lemma add_child_present:
  assumes "distinct (map name ch)" and "f \<in> name ` set ch"
  shows "add_child f g ch = map (\<lambda>x. if name x = f then g x else x) ch"
  using assms
proof (induction ch)
  case Nil
  then show ?case by simp
next
  case (Cons x xs)
  show ?case
  proof (cases "name x = f")
    case True
    with Cons.prems(1) have "\<forall>y \<in> set xs. name y \<noteq> f"
      by (auto simp: image_iff)
    then have "map (\<lambda>x. if name x = f then g x else x) xs = xs"
      by (simp add: map_idI)
    with True show ?thesis by simp
  next
    case False
    with Cons show ?thesis by auto
  qed
qed

lemma add_child_absent:
  "f \<notin> name ` set ch \<Longrightarrow> add_child f g ch = ch @ [g (Frame f 0 0 [])]"
  by (induction ch) auto

lemma unique_names_add_stack: "unique_names t \<Longrightarrow> unique_names (add_stack c p t)"
proof (induction p arbitrary: t)
  case Nil
  then show ?case by (cases t) simp
next
  case (Cons f fs)
  obtain n k s ch where t: "t = Frame n k s ch"
    by (cases t)
  let ?g = "\<lambda>child. add_stack c fs child"
  from Cons.prems have d: "distinct (map name ch)" and sub: "\<forall>x \<in> set ch. unique_names x"
    by (simp_all add: t)
  have names: "map name (add_child f ?g ch)
           = (if f \<in> name ` set ch then map name ch else map name ch @ [f])"
    by (rule names_add_child) (rule name_add_stack)
  have d': "distinct (map name (add_child f ?g ch))"
    unfolding names using d by auto
  have "\<forall>x \<in> set (add_child f ?g ch). unique_names x"
  proof (cases "f \<in> name ` set ch")
    case True
    show ?thesis
      unfolding add_child_present [OF d True] using sub Cons.IH by auto
  next
    case False
    have "unique_names (Frame f 0 0 [])"
      by simp
    then show ?thesis
      unfolding add_child_absent [OF False] using sub Cons.IH by auto
  qed
  with d' show ?case
    by (simp add: t)
qed

lemma sort_children_add_stack:
  "unique_names t \<Longrightarrow> sort_children (add_stack c p t) = place_stack c p (sort_children t)"
proof (induction p arbitrary: t)
  case Nil
  then show ?case by (cases t) simp
next
  case (Cons f fs)
  obtain n k s ch where t: "t = Frame n k s ch"
    by (cases t)
  let ?g = "\<lambda>child. add_stack c fs child"
  let ?g' = "\<lambda>child. place_stack c fs child"
  let ?S = "map sort_children (sort_key name ch)"
  from Cons.prems have d: "distinct (map name ch)" and sub: "\<forall>x \<in> set ch. unique_names x"
    by (simp_all add: t)
  have names_S: "name ` set ?S = name ` set ch"
    by (auto simp: name_sort_children image_iff)
  have "map sort_children (sort_key name (add_child f ?g ch)) = place_child f ?g' ?S"
  proof (cases "f \<in> name ` set ch")
    case True
    let ?h = "\<lambda>x. if name x = f then ?g x else x"
    let ?h' = "\<lambda>x. if name x = f then ?g' x else x"
    have "sort_key name (add_child f ?g ch) = map ?h (sort_key name ch)"
      unfolding add_child_present [OF d True]
      by (rule sort_key_map) (simp add: name_add_stack)
    moreover have "map sort_children (map ?h (sort_key name ch)) = map ?h' ?S"
      using sub by (auto simp: Cons.IH name_sort_children)
    moreover have "place_child f ?g' ?S = map ?h' ?S"
      unfolding place_child_def names_S using True by simp
    ultimately show ?thesis
      by simp
  next
    case False
    have fresh: "sort_children (?g (Frame f 0 0 [])) = ?g' (Frame f 0 0 [])"
      using Cons.IH [of "Frame f 0 0 []"] by simp
    have "name (?g (Frame f 0 0 [])) \<notin> name ` set ch"
      using False by (simp add: name_add_stack)
    then have "sort_key name (add_child f ?g ch)
                 = insort_key name (?g (Frame f 0 0 [])) (sort_key name ch)"
      unfolding add_child_absent [OF False] by (rule sort_key_snoc)
    then have "map sort_children (sort_key name (add_child f ?g ch))
                 = insort_key name (?g' (Frame f 0 0 [])) ?S"
      by (simp add: map_insort_key [of name sort_children, OF name_sort_children] fresh)
    moreover have "place_child f ?g' ?S = insort_key name (?g' (Frame f 0 0 [])) ?S"
      unfolding place_child_def names_S using False by simp
    ultimately show ?thesis
      by simp
  qed
  then show ?case
    by (simp add: t)
qed


lemma place_child_present:
  "f \<in> name ` set xs \<Longrightarrow> place_child f g xs = map (\<lambda>x. if name x = f then g x else x) xs"
  by (simp add: place_child_def)

lemma place_child_absent:
  "f \<notin> name ` set xs \<Longrightarrow> place_child f g xs = insort_key name (g (Frame f 0 0 [])) xs"
  by (simp add: place_child_def)

lemma names_map_update:
  assumes "\<And>x. name (g x) = name x"
  shows "name ` set (map (\<lambda>x. if name x = f then g x else x) xs) = name ` set xs"
proof -
  have "map name (map (\<lambda>x. if name x = f then g x else x) xs) = map name xs"
    by (induction xs) (simp_all add: assms)
  then have "set (map name (map (\<lambda>x. if name x = f then g x else x) xs)) = set (map name xs)"
    by simp
  then show ?thesis
    by (simp only: set_map)
qed

lemma names_place_child:
  assumes "\<And>x. name (g x) = name x"
  shows "name ` set (place_child f g xs) = insert f (name ` set xs)"
proof (cases "f \<in> name ` set xs")
  case True
  then show ?thesis
    unfolding place_child_present [OF True] names_map_update [of g, OF assms] by blast
next
  case False
  show ?thesis
    unfolding place_child_absent [OF False] by (simp add: set_insort_key assms)
qed

lemma map_update_absent:
  "f \<notin> name ` set xs \<Longrightarrow> map (\<lambda>x. if name x = f then g x else x) xs = xs"
  by (induction xs) auto

lemma place_child_twice:
  assumes g: "\<And>x. name (g x) = name x" and g': "\<And>x. name (g' x) = name x"
  shows "place_child f g (place_child f g' xs) = place_child f (\<lambda>x. g (g' x)) xs"
proof -
  let ?h = "\<lambda>x. if name x = f then g x else x"
  let ?h' = "\<lambda>x. if name x = f then g' x else x"
  have mem: "f \<in> name ` set (place_child f g' xs)"
    by (simp add: names_place_child [of g', OF g'])
  have outer: "place_child f g (place_child f g' xs) = map ?h (place_child f g' xs)"
    by (rule place_child_present [OF mem])
  show ?thesis
  proof (cases "f \<in> name ` set xs")
    case True
    have "map ?h (map ?h' xs) = map (\<lambda>x. if name x = f then g (g' x) else x) xs"
      by (induction xs) (simp_all add: g')
    then show ?thesis
      unfolding outer by (simp only: place_child_present [OF True])
  next
    case False
    let ?y = "g' (Frame f 0 0 [])"
    have "map ?h (insort_key name ?y xs) = insort_key name (?h ?y) (map ?h xs)"
      by (rule map_insort_key) (simp add: g)
    also have "?h ?y = g ?y"
      by (simp add: g')
    also have "map ?h xs = xs"
      by (rule map_update_absent [OF False])
    finally show ?thesis
      unfolding outer by (simp only: place_child_absent [OF False])
  qed
qed

lemma place_child_other:
  assumes g: "\<And>x. name (g x) = name x" and g': "\<And>x. name (g' x) = name x"
    and ne: "f \<noteq> f'"
  shows "place_child f g (place_child f' g' xs) = place_child f' g' (place_child f g xs)"
proof -
  let ?h = "\<lambda>x. if name x = f then g x else x"
  let ?h' = "\<lambda>x. if name x = f' then g' x else x"
  let ?y = "g (Frame f 0 0 [])"
  let ?y' = "g' (Frame f' 0 0 [])"
  have hn: "\<And>x. name (?h x) = name x" and hn': "\<And>x. name (?h' x) = name x"
    by (simp_all add: g g')
  have in1: "f \<in> name ` set (place_child f' g' xs) \<longleftrightarrow> f \<in> name ` set xs"
    using ne by (simp add: names_place_child [of g', OF g'])
  have in2: "f' \<in> name ` set (place_child f g xs) \<longleftrightarrow> f' \<in> name ` set xs"
    using ne by (simp add: names_place_child [of g, OF g])
  have hy: "?h ?y' = ?y'" and hy': "?h' ?y = ?y"
    using ne by (simp_all add: g g')
  have comm: "map ?h (map ?h' xs) = map ?h' (map ?h xs)"
    using ne by (induction xs) (simp_all add: g g')
  have ins: "map ?h (insort_key name ?y' xs) = insort_key name ?y' (map ?h xs)"
    using map_insort_key [of name ?h ?y' xs, OF hn] hy by simp
  have ins': "map ?h' (insort_key name ?y xs) = insort_key name ?y (map ?h' xs)"
    using map_insort_key [of name ?h' ?y xs, OF hn'] hy' by simp
  show ?thesis
  proof (cases "f \<in> name ` set xs")
    case f: True
    from f in1 have f1: "f \<in> name ` set (place_child f' g' xs)" by simp
    show ?thesis
    proof (cases "f' \<in> name ` set xs")
      case True
      from True in2 have f2: "f' \<in> name ` set (place_child f g xs)" by simp
      have "place_child f g (place_child f' g' xs) = map ?h (map ?h' xs)"
        unfolding place_child_present [OF f1] by (simp only: place_child_present [OF True])
      moreover have "place_child f' g' (place_child f g xs) = map ?h' (map ?h xs)"
        unfolding place_child_present [OF f2] by (simp only: place_child_present [OF f])
      ultimately show ?thesis
        by (simp only: comm)
    next
      case False
      from False in2 have f2: "f' \<notin> name ` set (place_child f g xs)" by simp
      have "place_child f g (place_child f' g' xs) = map ?h (insort_key name ?y' xs)"
        unfolding place_child_present [OF f1] by (simp only: place_child_absent [OF False])
      moreover have "place_child f' g' (place_child f g xs) = insort_key name ?y' (map ?h xs)"
        unfolding place_child_absent [OF f2] by (simp only: place_child_present [OF f])
      ultimately show ?thesis
        by (simp only: ins)
    qed
  next
    case nf: False
    from nf in1 have f1: "f \<notin> name ` set (place_child f' g' xs)" by simp
    show ?thesis
    proof (cases "f' \<in> name ` set xs")
      case True
      from True in2 have f2: "f' \<in> name ` set (place_child f g xs)" by simp
      have "place_child f g (place_child f' g' xs) = insort_key name ?y (map ?h' xs)"
        unfolding place_child_absent [OF f1] by (simp only: place_child_present [OF True])
      moreover have "place_child f' g' (place_child f g xs) = map ?h' (insort_key name ?y xs)"
        unfolding place_child_present [OF f2] by (simp only: place_child_absent [OF nf])
      ultimately show ?thesis
        by (simp only: ins')
    next
      case False
      from False in2 have f2: "f' \<notin> name ` set (place_child f g xs)" by simp
      have "name ?y' \<noteq> name ?y"
        using ne by (simp add: g g')
      then have sw: "insort_key name ?y (insort_key name ?y' xs)
                   = insort_key name ?y' (insort_key name ?y xs)"
        by (rule insort_key_left_comm)
      have "place_child f g (place_child f' g' xs) = insort_key name ?y (insort_key name ?y' xs)"
        unfolding place_child_absent [OF f1] by (simp only: place_child_absent [OF False])
      moreover have "place_child f' g' (place_child f g xs)
                       = insort_key name ?y' (insort_key name ?y xs)"
        unfolding place_child_absent [OF f2] by (simp only: place_child_absent [OF nf])
      ultimately show ?thesis
        by (simp only: sw)
    qed
  qed
qed

lemma place_stack_commute:
  "place_stack c p (place_stack d q t) = place_stack d q (place_stack c p t)"
proof (induction p arbitrary: q t)
  case Nil
  show ?case
    by (cases t; cases q) simp_all
next
  case (Cons f fs)
  obtain n k s ch where t: "t = Frame n k s ch"
    by (cases t)
  show ?case
  proof (cases q)
    case Nil
    then show ?thesis by (simp add: t)
  next
    case (Cons f' fs')
    let ?g = "\<lambda>child. place_stack c fs child"
    let ?g' = "\<lambda>child. place_stack d fs' child"
    have "place_child f ?g (place_child f' ?g' ch) = place_child f' ?g' (place_child f ?g ch)"
    proof (cases "f = f'")
      case True
      have "place_child f ?g (place_child f ?g' ch) = place_child f (\<lambda>x. ?g (?g' x)) ch"
        by (rule place_child_twice) (rule name_place_stack)+
      also have "(\<lambda>x. ?g (?g' x)) = (\<lambda>x. ?g' (?g x))"
        by (simp add: Cons.IH)
      also have "place_child f (\<lambda>x. ?g' (?g x)) ch = place_child f ?g' (place_child f ?g ch)"
        by (rule place_child_twice [symmetric]) (rule name_place_stack)+
      finally show ?thesis
        using True by simp
    next
      case False
      then show ?thesis
        by (intro place_child_other name_place_stack)
    qed
    then show ?thesis
      by (simp add: t Cons)
  qed
qed


lemma fold_add_line:
  "fold add_line ls (t, n) = (fold add_line_tree ls t, n + sum_list (map line_count ls))"
proof (induction ls arbitrary: t n)
  case Nil
  show ?case by simp
next
  case (Cons l ls)
  have "add_line l (t, n) = (add_line_tree l t, n + line_count l)"
    by (simp add: add_line_def add_line_tree_def line_count_def split: option.splits)
  then show ?case
    by (simp add: Cons.IH)
qed

lemma unique_names_fold: "unique_names t \<Longrightarrow> unique_names (fold add_line_tree ls t)"
proof (induction ls arbitrary: t)
  case Nil
  then show ?case by simp
next
  case (Cons l ls)
  have "unique_names (add_line_tree l t)"
    using Cons.prems by (simp add: add_line_tree_def unique_names_add_stack split: option.splits)
  then show ?case
    by (simp add: Cons.IH)
qed

lemma sort_children_fold:
  "unique_names t \<Longrightarrow>
     sort_children (fold add_line_tree ls t) = fold place_line_tree ls (sort_children t)"
proof (induction ls arbitrary: t)
  case Nil
  show ?case by simp
next
  case (Cons l ls)
  have u: "unique_names (add_line_tree l t)"
    using Cons.prems by (simp add: add_line_tree_def unique_names_add_stack split: option.splits)
  have "sort_children (add_line_tree l t) = place_line_tree l (sort_children t)"
    using Cons.prems
    by (simp add: add_line_tree_def place_line_tree_def sort_children_add_stack
        split: option.splits)
  then show ?case
    using Cons.IH [OF u] by simp
qed

lemma place_line_tree_commute:
  "place_line_tree x \<circ> place_line_tree y = place_line_tree y \<circ> place_line_tree x"
proof
  fix t
  show "(place_line_tree x \<circ> place_line_tree y) t = (place_line_tree y \<circ> place_line_tree x) t"
    by (simp add: place_line_tree_def place_stack_commute split: option.splits)
qed

lemma sorted_tree_permuted:
  assumes "mset ls = mset ls'"
  shows "sort_children (fst (parse_folded ls)) = sort_children (fst (parse_folded ls'))"
proof -
  have u: "unique_names (Frame ''root'' 0 0 [])"
    by simp
  have "fold place_line_tree ls = fold place_line_tree ls'"
    by (rule fold_multiset_equiv [OF place_line_tree_commute assms])
  then show ?thesis
    by (simp add: parse_folded_def fold_add_line sort_children_fold [OF u])
qed

lemma total_permuted:
  assumes "mset ls = mset ls'"
  shows "snd (parse_folded ls) = snd (parse_folded ls')"
proof -
  have "sum_list (map line_count ls) = sum_mset (image_mset line_count (mset ls))"
    by (metis mset_map sum_mset_sum_list)
  also have "\<dots> = sum_list (map line_count ls')"
    unfolding assms by (metis mset_map sum_mset_sum_list)
  finally show ?thesis
    by (simp add: parse_folded_def fold_add_line)
qed

lemma render_svg_sorted:
  "sort_children t = sort_children t' \<Longrightarrow>
     render_svg md5_hex8 t tot title width = render_svg md5_hex8 t' tot title width"
  by (simp add: render_svg_def)

lemma main_permuted:
  assumes "mset ls = mset ls'"
  shows "main md5_hex8 ls title width = main md5_hex8 ls' title width"
proof -
  have e: "ls = [] \<longleftrightarrow> ls' = []"
    using assms by (metis mset_zero_iff)
  obtain t n where p: "parse_folded ls = (t, n)" by (cases "parse_folded ls")
  obtain t' n' where p': "parse_folded ls' = (t', n')" by (cases "parse_folded ls'")
  from sorted_tree_permuted [OF assms] total_permuted [OF assms]
  have "sort_children t = sort_children t'" and "n = n'"
    by (simp_all add: p p')
  then show ?thesis
    using e by (simp add: main_def p p' render_svg_sorted [of t t'])
qed

lemma name_sort_children_d: "name_d (sort_children_d t) = name_d t"
  by (cases t) simp

lemma name_add_stack_d: "name_d (add_stack_d a b p t) = name_d t"
  by (cases t; cases p) simp_all

lemma name_place_stack_d: "name_d (place_stack_d a b p t) = name_d t"
  by (cases t; cases p) simp_all

lemma names_add_child_d:
  assumes "\<And>x. name_d (g x) = name_d x"
  shows "map name_d (add_child_d f g ch)
           = (if f \<in> name_d ` set ch then map name_d ch else map name_d ch @ [f])"
  by (induction ch) (auto simp: assms)

lemma add_child_present_d:
  assumes "distinct (map name_d ch)" and "f \<in> name_d ` set ch"
  shows "add_child_d f g ch = map (\<lambda>x. if name_d x = f then g x else x) ch"
  using assms
proof (induction ch)
  case Nil
  then show ?case by simp
next
  case (Cons x xs)
  show ?case
  proof (cases "name_d x = f")
    case True
    with Cons.prems(1) have "\<forall>y \<in> set xs. name_d y \<noteq> f"
      by (auto simp: image_iff)
    then have "map (\<lambda>x. if name_d x = f then g x else x) xs = xs"
      by (simp add: map_idI)
    with True show ?thesis by simp
  next
    case False
    with Cons show ?thesis by auto
  qed
qed

lemma add_child_absent_d:
  "f \<notin> name_d ` set ch \<Longrightarrow> add_child_d f g ch = ch @ [g (DiffFrame f 0 0 0 0 [])]"
  by (induction ch) auto

lemma unique_names_add_stack_d: "unique_names_d t \<Longrightarrow> unique_names_d (add_stack_d a b p t)"
proof (induction p arbitrary: t)
  case Nil
  then show ?case by (cases t) simp
next
  case (Cons f fs)
  obtain n ka kb sa sb ch where t: "t = DiffFrame n ka kb sa sb ch"
    by (cases t)
  let ?g = "\<lambda>child. add_stack_d a b fs child"
  from Cons.prems have d: "distinct (map name_d ch)" and sub: "\<forall>x \<in> set ch. unique_names_d x"
    by (simp_all add: t)
  have names: "map name_d (add_child_d f ?g ch)
           = (if f \<in> name_d ` set ch then map name_d ch else map name_d ch @ [f])"
    by (rule names_add_child_d) (rule name_add_stack_d)
  have d': "distinct (map name_d (add_child_d f ?g ch))"
    unfolding names using d by auto
  have "\<forall>x \<in> set (add_child_d f ?g ch). unique_names_d x"
  proof (cases "f \<in> name_d ` set ch")
    case True
    show ?thesis
      unfolding add_child_present_d [OF d True] using sub Cons.IH by auto
  next
    case False
    have "unique_names_d (DiffFrame f 0 0 0 0 [])"
      by simp
    then show ?thesis
      unfolding add_child_absent_d [OF False] using sub Cons.IH by auto
  qed
  with d' show ?case
    by (simp add: t)
qed

lemma sort_children_add_stack_d:
  "unique_names_d t \<Longrightarrow> sort_children_d (add_stack_d a b p t) = place_stack_d a b p (sort_children_d t)"
proof (induction p arbitrary: t)
  case Nil
  then show ?case by (cases t) simp
next
  case (Cons f fs)
  obtain n ka kb sa sb ch where t: "t = DiffFrame n ka kb sa sb ch"
    by (cases t)
  let ?g = "\<lambda>child. add_stack_d a b fs child"
  let ?g' = "\<lambda>child. place_stack_d a b fs child"
  let ?S = "map sort_children_d (sort_key name_d ch)"
  from Cons.prems have d: "distinct (map name_d ch)" and sub: "\<forall>x \<in> set ch. unique_names_d x"
    by (simp_all add: t)
  have names_S: "name_d ` set ?S = name_d ` set ch"
    by (auto simp: name_sort_children_d image_iff)
  have "map sort_children_d (sort_key name_d (add_child_d f ?g ch)) = place_child_d f ?g' ?S"
  proof (cases "f \<in> name_d ` set ch")
    case True
    let ?h = "\<lambda>x. if name_d x = f then ?g x else x"
    let ?h' = "\<lambda>x. if name_d x = f then ?g' x else x"
    have "sort_key name_d (add_child_d f ?g ch) = map ?h (sort_key name_d ch)"
      unfolding add_child_present_d [OF d True]
      by (rule sort_key_map) (simp add: name_add_stack_d)
    moreover have "map sort_children_d (map ?h (sort_key name_d ch)) = map ?h' ?S"
      using sub by (auto simp: Cons.IH name_sort_children_d)
    moreover have "place_child_d f ?g' ?S = map ?h' ?S"
      unfolding place_child_d_def names_S using True by simp
    ultimately show ?thesis
      by simp
  next
    case False
    have fresh: "sort_children_d (?g (DiffFrame f 0 0 0 0 [])) = ?g' (DiffFrame f 0 0 0 0 [])"
      using Cons.IH [of "DiffFrame f 0 0 0 0 []"] by simp
    have "name_d (?g (DiffFrame f 0 0 0 0 [])) \<notin> name_d ` set ch"
      using False by (simp add: name_add_stack_d)
    then have "sort_key name_d (add_child_d f ?g ch)
                 = insort_key name_d (?g (DiffFrame f 0 0 0 0 [])) (sort_key name_d ch)"
      unfolding add_child_absent_d [OF False] by (rule sort_key_snoc)
    then have "map sort_children_d (sort_key name_d (add_child_d f ?g ch))
                 = insort_key name_d (?g' (DiffFrame f 0 0 0 0 [])) ?S"
      by (simp add: map_insort_key [of name_d sort_children_d, OF name_sort_children_d] fresh)
    moreover have "place_child_d f ?g' ?S = insort_key name_d (?g' (DiffFrame f 0 0 0 0 [])) ?S"
      unfolding place_child_d_def names_S using False by simp
    ultimately show ?thesis
      by simp
  qed
  then show ?case
    by (simp add: t)
qed


lemma place_child_present_d:
  "f \<in> name_d ` set xs \<Longrightarrow> place_child_d f g xs = map (\<lambda>x. if name_d x = f then g x else x) xs"
  by (simp add: place_child_d_def)

lemma place_child_absent_d:
  "f \<notin> name_d ` set xs \<Longrightarrow> place_child_d f g xs = insort_key name_d (g (DiffFrame f 0 0 0 0 [])) xs"
  by (simp add: place_child_d_def)

lemma names_map_update_d:
  assumes "\<And>x. name_d (g x) = name_d x"
  shows "name_d ` set (map (\<lambda>x. if name_d x = f then g x else x) xs) = name_d ` set xs"
proof -
  have "map name_d (map (\<lambda>x. if name_d x = f then g x else x) xs) = map name_d xs"
    by (induction xs) (simp_all add: assms)
  then have "set (map name_d (map (\<lambda>x. if name_d x = f then g x else x) xs)) = set (map name_d xs)"
    by simp
  then show ?thesis
    by (simp only: set_map)
qed

lemma names_place_child_d:
  assumes "\<And>x. name_d (g x) = name_d x"
  shows "name_d ` set (place_child_d f g xs) = insert f (name_d ` set xs)"
proof (cases "f \<in> name_d ` set xs")
  case True
  then show ?thesis
    unfolding place_child_present_d [OF True] names_map_update_d [of g, OF assms] by blast
next
  case False
  show ?thesis
    unfolding place_child_absent_d [OF False] by (simp add: set_insort_key assms)
qed

lemma map_update_absent_d:
  "f \<notin> name_d ` set xs \<Longrightarrow> map (\<lambda>x. if name_d x = f then g x else x) xs = xs"
  by (induction xs) auto

lemma place_child_twice_d:
  assumes g: "\<And>x. name_d (g x) = name_d x" and g': "\<And>x. name_d (g' x) = name_d x"
  shows "place_child_d f g (place_child_d f g' xs) = place_child_d f (\<lambda>x. g (g' x)) xs"
proof -
  let ?h = "\<lambda>x. if name_d x = f then g x else x"
  let ?h' = "\<lambda>x. if name_d x = f then g' x else x"
  have mem: "f \<in> name_d ` set (place_child_d f g' xs)"
    by (simp add: names_place_child_d [of g', OF g'])
  have outer: "place_child_d f g (place_child_d f g' xs) = map ?h (place_child_d f g' xs)"
    by (rule place_child_present_d [OF mem])
  show ?thesis
  proof (cases "f \<in> name_d ` set xs")
    case True
    have "map ?h (map ?h' xs) = map (\<lambda>x. if name_d x = f then g (g' x) else x) xs"
      by (induction xs) (simp_all add: g')
    then show ?thesis
      unfolding outer by (simp only: place_child_present_d [OF True])
  next
    case False
    let ?y = "g' (DiffFrame f 0 0 0 0 [])"
    have "map ?h (insort_key name_d ?y xs) = insort_key name_d (?h ?y) (map ?h xs)"
      by (rule map_insort_key) (simp add: g)
    also have "?h ?y = g ?y"
      by (simp add: g')
    also have "map ?h xs = xs"
      by (rule map_update_absent_d [OF False])
    finally show ?thesis
      unfolding outer by (simp only: place_child_absent_d [OF False])
  qed
qed

lemma place_child_other_d:
  assumes g: "\<And>x. name_d (g x) = name_d x" and g': "\<And>x. name_d (g' x) = name_d x"
    and ne: "f \<noteq> f'"
  shows "place_child_d f g (place_child_d f' g' xs) = place_child_d f' g' (place_child_d f g xs)"
proof -
  let ?h = "\<lambda>x. if name_d x = f then g x else x"
  let ?h' = "\<lambda>x. if name_d x = f' then g' x else x"
  let ?y = "g (DiffFrame f 0 0 0 0 [])"
  let ?y' = "g' (DiffFrame f' 0 0 0 0 [])"
  have hn: "\<And>x. name_d (?h x) = name_d x" and hn': "\<And>x. name_d (?h' x) = name_d x"
    by (simp_all add: g g')
  have in1: "f \<in> name_d ` set (place_child_d f' g' xs) \<longleftrightarrow> f \<in> name_d ` set xs"
    using ne by (simp add: names_place_child_d [of g', OF g'])
  have in2: "f' \<in> name_d ` set (place_child_d f g xs) \<longleftrightarrow> f' \<in> name_d ` set xs"
    using ne by (simp add: names_place_child_d [of g, OF g])
  have hy: "?h ?y' = ?y'" and hy': "?h' ?y = ?y"
    using ne by (simp_all add: g g')
  have comm: "map ?h (map ?h' xs) = map ?h' (map ?h xs)"
    using ne by (induction xs) (simp_all add: g g')
  have ins: "map ?h (insort_key name_d ?y' xs) = insort_key name_d ?y' (map ?h xs)"
    using map_insort_key [of name_d ?h ?y' xs, OF hn] hy by simp
  have ins': "map ?h' (insort_key name_d ?y xs) = insort_key name_d ?y (map ?h' xs)"
    using map_insort_key [of name_d ?h' ?y xs, OF hn'] hy' by simp
  show ?thesis
  proof (cases "f \<in> name_d ` set xs")
    case f: True
    from f in1 have f1: "f \<in> name_d ` set (place_child_d f' g' xs)" by simp
    show ?thesis
    proof (cases "f' \<in> name_d ` set xs")
      case True
      from True in2 have f2: "f' \<in> name_d ` set (place_child_d f g xs)" by simp
      have "place_child_d f g (place_child_d f' g' xs) = map ?h (map ?h' xs)"
        unfolding place_child_present_d [OF f1] by (simp only: place_child_present_d [OF True])
      moreover have "place_child_d f' g' (place_child_d f g xs) = map ?h' (map ?h xs)"
        unfolding place_child_present_d [OF f2] by (simp only: place_child_present_d [OF f])
      ultimately show ?thesis
        by (simp only: comm)
    next
      case False
      from False in2 have f2: "f' \<notin> name_d ` set (place_child_d f g xs)" by simp
      have "place_child_d f g (place_child_d f' g' xs) = map ?h (insort_key name_d ?y' xs)"
        unfolding place_child_present_d [OF f1] by (simp only: place_child_absent_d [OF False])
      moreover have "place_child_d f' g' (place_child_d f g xs) = insort_key name_d ?y' (map ?h xs)"
        unfolding place_child_absent_d [OF f2] by (simp only: place_child_present_d [OF f])
      ultimately show ?thesis
        by (simp only: ins)
    qed
  next
    case nf: False
    from nf in1 have f1: "f \<notin> name_d ` set (place_child_d f' g' xs)" by simp
    show ?thesis
    proof (cases "f' \<in> name_d ` set xs")
      case True
      from True in2 have f2: "f' \<in> name_d ` set (place_child_d f g xs)" by simp
      have "place_child_d f g (place_child_d f' g' xs) = insort_key name_d ?y (map ?h' xs)"
        unfolding place_child_absent_d [OF f1] by (simp only: place_child_present_d [OF True])
      moreover have "place_child_d f' g' (place_child_d f g xs) = map ?h' (insort_key name_d ?y xs)"
        unfolding place_child_present_d [OF f2] by (simp only: place_child_absent_d [OF nf])
      ultimately show ?thesis
        by (simp only: ins')
    next
      case False
      from False in2 have f2: "f' \<notin> name_d ` set (place_child_d f g xs)" by simp
      have "name_d ?y' \<noteq> name_d ?y"
        using ne by (simp add: g g')
      then have sw: "insort_key name_d ?y (insort_key name_d ?y' xs)
                   = insort_key name_d ?y' (insort_key name_d ?y xs)"
        by (rule insort_key_left_comm)
      have "place_child_d f g (place_child_d f' g' xs) = insort_key name_d ?y (insort_key name_d ?y' xs)"
        unfolding place_child_absent_d [OF f1] by (simp only: place_child_absent_d [OF False])
      moreover have "place_child_d f' g' (place_child_d f g xs)
                       = insort_key name_d ?y' (insort_key name_d ?y xs)"
        unfolding place_child_absent_d [OF f2] by (simp only: place_child_absent_d [OF nf])
      ultimately show ?thesis
        by (simp only: sw)
    qed
  qed
qed

lemma place_stack_commute_d:
  "place_stack_d a b p (place_stack_d a' b' q t) = place_stack_d a' b' q (place_stack_d a b p t)"
proof (induction p arbitrary: q t)
  case Nil
  show ?case
    by (cases t; cases q) simp_all
next
  case (Cons f fs)
  obtain n ka kb sa sb ch where t: "t = DiffFrame n ka kb sa sb ch"
    by (cases t)
  show ?case
  proof (cases q)
    case Nil
    then show ?thesis by (simp add: t)
  next
    case (Cons f' fs')
    let ?g = "\<lambda>child. place_stack_d a b fs child"
    let ?g' = "\<lambda>child. place_stack_d a' b' fs' child"
    have "place_child_d f ?g (place_child_d f' ?g' ch) = place_child_d f' ?g' (place_child_d f ?g ch)"
    proof (cases "f = f'")
      case True
      have "place_child_d f ?g (place_child_d f ?g' ch) = place_child_d f (\<lambda>x. ?g (?g' x)) ch"
        by (rule place_child_twice_d) (rule name_place_stack_d)+
      also have "(\<lambda>x. ?g (?g' x)) = (\<lambda>x. ?g' (?g x))"
        by (simp add: Cons.IH)
      also have "place_child_d f (\<lambda>x. ?g' (?g x)) ch = place_child_d f ?g' (place_child_d f ?g ch)"
        by (rule place_child_twice_d [symmetric]) (rule name_place_stack_d)+
      finally show ?thesis
        using True by simp
    next
      case False
      then show ?thesis
        by (intro place_child_other_d name_place_stack_d)
    qed
    then show ?thesis
      by (simp add: t Cons)
  qed
qed


lemma build_diff_tree_fold:
  "build_diff_tree stacks_a total_a stacks_b total_b ks
     = fold (add_path_d stacks_a stacks_b) ks (DiffFrame ''root'' 0 0 0 0 [])"
proof -
  have "add_path_d stacks_a stacks_b
          = (\<lambda>stack_str t.
               add_stack_d (dict_get stacks_a stack_str 0) (dict_get stacks_b stack_str 0)
                 (split CHR '';'' stack_str) t)"
    by (intro ext) (simp add: add_path_d_def)
  then show ?thesis
    by (simp add: build_diff_tree_def)
qed

lemma unique_names_fold_d:
  "unique_names_d t \<Longrightarrow> unique_names_d (fold (add_path_d sa sb) ks t)"
  by (induction ks arbitrary: t) (simp_all add: add_path_d_def unique_names_add_stack_d)

lemma sort_children_fold_d:
  "unique_names_d t \<Longrightarrow>
     sort_children_d (fold (add_path_d sa sb) ks t)
       = fold (place_path_d sa sb) ks (sort_children_d t)"
proof (induction ks arbitrary: t)
  case Nil
  show ?case by simp
next
  case (Cons k ks)
  have u: "unique_names_d (add_path_d sa sb k t)"
    using Cons.prems by (simp add: add_path_d_def unique_names_add_stack_d)
  have "sort_children_d (add_path_d sa sb k t) = place_path_d sa sb k (sort_children_d t)"
    using Cons.prems by (simp add: add_path_d_def place_path_d_def sort_children_add_stack_d)
  then show ?case
    using Cons.IH [OF u] by simp
qed

lemma place_path_d_commute:
  "place_path_d sa sb x \<circ> place_path_d sa sb y = place_path_d sa sb y \<circ> place_path_d sa sb x"
  by (intro ext) (simp add: place_path_d_def place_stack_commute_d)

lemma place_path_d_cong:
  assumes "\<And>p. dict_get sa p 0 = dict_get sa' p 0" and "\<And>p. dict_get sb p 0 = dict_get sb' p 0"
  shows "place_path_d sa sb = place_path_d sa' sb'"
  by (intro ext) (simp add: place_path_d_def assms)

lemma sum_list_permuted:
  fixes f :: "'a \<Rightarrow> int"
  assumes "mset ls = mset ls'"
  shows "sum_list (map f ls) = sum_list (map f ls')"
proof -
  have "sum_list (map f ls) = sum_mset (image_mset f (mset ls))"
    by (metis mset_map sum_mset_sum_list)
  also have "\<dots> = sum_list (map f ls')"
    unfolding assms by (metis mset_map sum_mset_sum_list)
  finally show ?thesis .
qed

lemma dict_get_permuted:
  "mset ls = mset ls' \<Longrightarrow>
     dict_get (fst (parse_folded_d ls)) p 0 = dict_get (fst (parse_folded_d ls')) p 0"
  unfolding dict_get_parse_folded_d by (rule sum_list_permuted)

lemma keys_permuted:
  assumes "mset ls = mset ls'"
  shows "fst ` set (fst (parse_folded_d ls)) = fst ` set (fst (parse_folded_d ls'))"
proof -
  have "set ls = set ls'"
    using assms by (rule mset_eq_setD)
  then show ?thesis
    unfolding keys_parse_folded_d by simp
qed

lemma total_d_permuted:
  assumes "mset ls = mset ls'"
  shows "snd (parse_folded_d ls) = snd (parse_folded_d ls')"
proof -
  have "snd (fold add_line_d xs st) = snd st + sum_list (map line_count xs)" for xs st
    by (induction xs arbitrary: st)
      (auto simp: add_line_d_def line_count_def split: option.splits)
  then have "snd (parse_folded_d xs) = sum_list (map line_count xs)" for xs
    by (simp add: parse_folded_d_def)
  then show ?thesis
    using sum_list_permuted [OF assms, of line_count] by simp
qed

lemma sorted_diff_tree_permuted:
  assumes a: "mset la = mset la'" and b: "mset lb = mset lb'"
    and it: "iteration_of (fst (parse_folded_d la)) (fst (parse_folded_d lb)) ks"
    and it': "iteration_of (fst (parse_folded_d la')) (fst (parse_folded_d lb')) ks'"
  shows "sort_children_d (build_diff_tree (fst (parse_folded_d la)) ta
                            (fst (parse_folded_d lb)) tb ks)
         = sort_children_d (build_diff_tree (fst (parse_folded_d la')) ta'
                              (fst (parse_folded_d lb')) tb' ks')"
proof -
  let ?sa = "fst (parse_folded_d la)" and ?sb = "fst (parse_folded_d lb)"
  let ?sa' = "fst (parse_folded_d la')" and ?sb' = "fst (parse_folded_d lb')"
  have u: "unique_names_d (DiffFrame ''root'' 0 0 0 0 [])"
    by simp
  have "set ks = set ks'"
    using it it' keys_permuted [OF a] keys_permuted [OF b] by (simp add: iteration_of_def)
  moreover have "distinct ks" "distinct ks'"
    using it it' by (simp_all add: iteration_of_def)
  ultimately have m: "mset ks = mset ks'"
    by (simp add: set_eq_iff_mset_eq_distinct)
  have same: "place_path_d ?sa ?sb = place_path_d ?sa' ?sb'"
    by (rule place_path_d_cong) (rule dict_get_permuted [OF a], rule dict_get_permuted [OF b])
  have "fold (place_path_d ?sa ?sb) ks = fold (place_path_d ?sa ?sb) ks'"
    by (rule fold_multiset_equiv [OF place_path_d_commute m])
  then show ?thesis
    by (simp add: build_diff_tree_fold sort_children_fold_d [OF u] same)
qed

lemma render_diff_svg_sorted:
  "sort_children_d t = sort_children_d t' \<Longrightarrow>
     render_diff_svg t ta tb title width = render_diff_svg t' ta tb title width"
  by (simp add: render_diff_svg_def)

text \<open>
  C7. When two sequences of input lines are permutations of each other, the single-profile
  tool builds trees that are equal after the recursive sort of the children, with the
  same total, and its whole run, the rendered document included, is the same. In
  differential mode, when the before-lines and the after-lines are permuted and whatever
  the two orders in which the sets of call paths are iterated, the merged trees are equal
  after the sort, the totals are the same, and so is the rendered document.
\<close>

theorem order_independent:
  "(mset lines = mset lines' \<longrightarrow>
      sort_children (fst (parse_folded lines)) = sort_children (fst (parse_folded lines'))
      \<and> snd (parse_folded lines) = snd (parse_folded lines')
      \<and> main md5_hex8 lines title width = main md5_hex8 lines' title width)
   \<and> (mset la = mset la' \<and> mset lb = mset lb'
       \<and> iteration_of (fst (parse_folded_d la)) (fst (parse_folded_d lb)) ks
       \<and> iteration_of (fst (parse_folded_d la')) (fst (parse_folded_d lb')) ks' \<longrightarrow>
      sort_children_d (build_diff_tree (fst (parse_folded_d la)) (snd (parse_folded_d la))
                         (fst (parse_folded_d lb)) (snd (parse_folded_d lb)) ks)
        = sort_children_d (build_diff_tree (fst (parse_folded_d la')) (snd (parse_folded_d la'))
                             (fst (parse_folded_d lb')) (snd (parse_folded_d lb')) ks')
      \<and> snd (parse_folded_d la) = snd (parse_folded_d la')
      \<and> snd (parse_folded_d lb) = snd (parse_folded_d lb')
      \<and> render_diff_svg
            (build_diff_tree (fst (parse_folded_d la)) (snd (parse_folded_d la))
               (fst (parse_folded_d lb)) (snd (parse_folded_d lb)) ks)
            (snd (parse_folded_d la)) (snd (parse_folded_d lb)) title width
        = render_diff_svg
            (build_diff_tree (fst (parse_folded_d la')) (snd (parse_folded_d la'))
               (fst (parse_folded_d lb')) (snd (parse_folded_d lb')) ks')
            (snd (parse_folded_d la')) (snd (parse_folded_d lb')) title width)"
proof -
  have single: "mset lines = mset lines' \<longrightarrow>
      sort_children (fst (parse_folded lines)) = sort_children (fst (parse_folded lines'))
      \<and> snd (parse_folded lines) = snd (parse_folded lines')
      \<and> main md5_hex8 lines title width = main md5_hex8 lines' title width"
    using sorted_tree_permuted total_permuted main_permuted by blast
  {
    assume a: "mset la = mset la'" and b: "mset lb = mset lb'"
      and it: "iteration_of (fst (parse_folded_d la)) (fst (parse_folded_d lb)) ks"
      and it': "iteration_of (fst (parse_folded_d la')) (fst (parse_folded_d lb')) ks'"
    note t = sorted_diff_tree_permuted [OF a b it it']
    have ta: "snd (parse_folded_d la) = snd (parse_folded_d la')"
      by (rule total_d_permuted [OF a])
    have tb: "snd (parse_folded_d lb) = snd (parse_folded_d lb')"
      by (rule total_d_permuted [OF b])
    have "sort_children_d (build_diff_tree (fst (parse_folded_d la)) (snd (parse_folded_d la))
                         (fst (parse_folded_d lb)) (snd (parse_folded_d lb)) ks)
        = sort_children_d (build_diff_tree (fst (parse_folded_d la')) (snd (parse_folded_d la'))
                             (fst (parse_folded_d lb')) (snd (parse_folded_d lb')) ks')"
      by (rule t)
    moreover from this have "render_diff_svg
            (build_diff_tree (fst (parse_folded_d la)) (snd (parse_folded_d la))
               (fst (parse_folded_d lb)) (snd (parse_folded_d lb)) ks)
            (snd (parse_folded_d la)) (snd (parse_folded_d lb)) title width
        = render_diff_svg
            (build_diff_tree (fst (parse_folded_d la')) (snd (parse_folded_d la'))
               (fst (parse_folded_d lb')) (snd (parse_folded_d lb')) ks')
            (snd (parse_folded_d la')) (snd (parse_folded_d lb')) title width"
      unfolding ta [symmetric] tb [symmetric] by (rule render_diff_svg_sorted)
    moreover note ta tb
    ultimately have "sort_children_d (build_diff_tree (fst (parse_folded_d la)) (snd (parse_folded_d la))
                         (fst (parse_folded_d lb)) (snd (parse_folded_d lb)) ks)
        = sort_children_d (build_diff_tree (fst (parse_folded_d la')) (snd (parse_folded_d la'))
                             (fst (parse_folded_d lb')) (snd (parse_folded_d lb')) ks')
      \<and> snd (parse_folded_d la) = snd (parse_folded_d la')
      \<and> snd (parse_folded_d lb) = snd (parse_folded_d lb')
      \<and> render_diff_svg
            (build_diff_tree (fst (parse_folded_d la)) (snd (parse_folded_d la))
               (fst (parse_folded_d lb)) (snd (parse_folded_d lb)) ks)
            (snd (parse_folded_d la)) (snd (parse_folded_d lb)) title width
        = render_diff_svg
            (build_diff_tree (fst (parse_folded_d la')) (snd (parse_folded_d la'))
               (fst (parse_folded_d lb')) (snd (parse_folded_d lb')) ks')
            (snd (parse_folded_d la')) (snd (parse_folded_d lb')) title width"
      by blast
  }
  with single show ?thesis
    by blast
qed

lemma order_examples:
  "parse_folded [''b 1'', ''a 2''] = (Frame ''root'' 3 0 [Frame ''b'' 1 1 [], Frame ''a'' 2 2 []], 3)"
  "parse_folded [''a 2'', ''b 1''] = (Frame ''root'' 3 0 [Frame ''a'' 2 2 [], Frame ''b'' 1 1 []], 3)"
  "parse_folded_d [''b 1'', ''a 2''] = ([(''b'', 1), (''a'', 2)], 3)"
  "parse_folded_d [''a 2'', ''b 1''] = ([(''a'', 2), (''b'', 1)], 3)"
  "parse_folded_d [''a 3''] = ([(''a'', 3)], 3)"
  by code_simp+

theorem order_independent_witness:
  "mset [''b 1'', ''a 2''] = mset [''a 2'', ''b 1'']
   \<and> fst (parse_folded [''b 1'', ''a 2'']) \<noteq> fst (parse_folded [''a 2'', ''b 1''])
   \<and> sort_children (fst (parse_folded [''b 1'', ''a 2'']))
       = sort_children (fst (parse_folded [''a 2'', ''b 1'']))
   \<and> iteration_of (fst (parse_folded_d [''b 1'', ''a 2''])) (fst (parse_folded_d [''a 3'']))
        [''b'', ''a'']
   \<and> iteration_of (fst (parse_folded_d [''a 2'', ''b 1''])) (fst (parse_folded_d [''a 3'']))
        [''a'', ''b'']
   \<and> sort_children_d
        (build_diff_tree (fst (parse_folded_d [''b 1'', ''a 2''])) (snd (parse_folded_d [''b 1'', ''a 2'']))
           (fst (parse_folded_d [''a 3''])) (snd (parse_folded_d [''a 3''])) [''b'', ''a''])
       = sort_children_d
           (build_diff_tree (fst (parse_folded_d [''a 2'', ''b 1''])) (snd (parse_folded_d [''a 2'', ''b 1'']))
              (fst (parse_folded_d [''a 3''])) (snd (parse_folded_d [''a 3''])) [''a'', ''b''])"
proof -
  have m: "mset [''b 1'', ''a 2''] = mset [''a 2'', ''b 1'']"
    by (simp add: add_mset_commute)
  have ne: "fst (parse_folded [''b 1'', ''a 2'']) \<noteq> fst (parse_folded [''a 2'', ''b 1''])"
    by (simp add: order_examples)
  have i: "iteration_of (fst (parse_folded_d [''b 1'', ''a 2''])) (fst (parse_folded_d [''a 3'']))
             [''b'', ''a'']"
    and i': "iteration_of (fst (parse_folded_d [''a 2'', ''b 1''])) (fst (parse_folded_d [''a 3'']))
             [''a'', ''b'']"
    by (auto simp: order_examples iteration_of_def)
  note order_independent [of "[''b 1'', ''a 2'']" "[''a 2'', ''b 1'']" _ _ _
      "[''b 1'', ''a 2'']" "[''a 2'', ''b 1'']" "[''a 3'']" "[''a 3'']" "[''b'', ''a'']" "[''a'', ''b'']"]
  with m ne i i' show ?thesis
    by blast
qed

end
